theory Spec2Isabelle
  imports Main "HOL-Library.Word" "HOL-Library.Monad_Syntax"
begin

unbundle bit_operations_syntax

section \<open>Bytes, errors and the integer primitives\<close>

text \<open>
  A Python \<open>bytes\<close> value is a list of 8-bit words; \<open>buf[i]\<close> reads the
  unsigned value of a byte. Python integers are unbounded, so every integer of the
  scripts is an \<open>int\<close>; \<open>x << k\<close> is \<open>push_bit k x\<close> and \<open>x >> k\<close> is
  \<open>drop_bit k x\<close> (the arithmetic, flooring shift), and \<open>&\<close>, \<open>|\<close>, \<open>^\<close> act on
  the infinite two's complement representation as \<open>AND\<close>, \<open>OR\<close>, \<open>XOR\<close> do.
\<close>

type_synonym byte = "8 word"

text \<open>Every exception the scripts raise, named after the spec's error kinds.\<close>

datatype error =
    TruncatedVarint
  | Overlong
  | BadMagic
  | TruncatedBody
  | BadTag
  | StructError
  | IndexError
  | ZeroDivision
  | BadAnchorEvery
  | BlobTooSmall
  | BadCols
  | TruncatedString
  | BadIndexMagic
  | BadIndexCase
  | BadIndexVersion
  | IndexMismatch
  | BindingMismatch
  | Internal
  | NegativeUvarint
  | KeyError
  | Usage

subsection \<open>ZigZag (star\_case01\_spx\_replay.py, lines 15--20)\<close>

definition zigzag_encode :: "int \<Rightarrow> int" where
  "zigzag_encode x = (push_bit 1 x) XOR (drop_bit 63 x)"

definition zigzag_decode :: "int \<Rightarrow> int" where
  "zigzag_decode u = (drop_bit 1 u) XOR (- (u AND 1))"

subsection \<open>Varint encoding (lines 23--33)\<close>

text \<open>
  The \<open>while True\<close> loop of \<open>varint_encode\<close>, with the bytearray \<open>out\<close> as an
  accumulator. The loop leaves only when \<open>u >> 7\<close> is zero, which never happens for a
  negative \<open>u\<close>; not returning is the value \<open>None\<close>.
\<close>

partial_function (option) varint_encode_loop :: "int \<Rightarrow> byte list \<Rightarrow> byte list option" where
  "varint_encode_loop u out =
     (let b = u AND 0x7F; u' = drop_bit 7 u in
      if u' \<noteq> 0 then varint_encode_loop u' (out @ [word_of_int (b OR 0x80)])
      else Some (out @ [word_of_int b]))"

declare varint_encode_loop.simps [code]

definition varint_encode :: "int \<Rightarrow> byte list option" where
  "varint_encode u = varint_encode_loop u []"

subsection \<open>Varint decoding\<close>

text \<open>
  The decoding loop is the same text in every module but for the bound tested after
  \<open>shift += 7\<close>: \<open>shift > 63\<close> in the Case-01 scripts and in \<open>read_uvarint\<close> of
  Case-04, \<open>shift > 70\<close> in star\_case02\_airquality\_replay.py (line 48). The bound is
  the parameter \<open>lim\<close>; \<open>shift\<close> and \<open>u\<close> are the loop's variables.
\<close>

function varint_loop :: "nat \<Rightarrow> byte list \<Rightarrow> nat \<Rightarrow> nat \<Rightarrow> int \<Rightarrow> error + (int \<times> nat)" where
  "varint_loop lim buf i shift u =
     (if i \<ge> length buf then Inl TruncatedVarint
      else
        let b = uint (buf ! i);
            i' = i + 1;
            u' = u OR push_bit shift (b AND 0x7F)
        in if b AND 0x80 = 0 then Inr (u', i')
           else
             let shift' = shift + 7
             in if shift' > lim then Inl Overlong
                else varint_loop lim buf i' shift' u')"
  by pat_completeness auto
termination
  by (relation "measure (\<lambda>(lim, buf, i, shift, u). length buf - i)") auto

declare varint_loop.simps [simp del]

text \<open>Case-01 (encoder module, index builder and replay engine alike): lines 36--51.\<close>

definition varint_decode :: "byte list \<Rightarrow> nat \<Rightarrow> error + (int \<times> nat)" where
  "varint_decode buf i = varint_loop 63 buf i 0 0"

text \<open>Case-02: star\_case02\_airquality\_replay.py, lines 36--49.\<close>

definition varint_decode2 :: "byte list \<Rightarrow> nat \<Rightarrow> error + (int \<times> nat)" where
  "varint_decode2 buf i = varint_loop 70 buf i 0 0"

text \<open>Case-04: star\_case04\_crypto\_replay.py, lines 40--53.\<close>

definition read_uvarint :: "byte list \<Rightarrow> nat \<Rightarrow> error + (int \<times> nat)" where
  "read_uvarint buf pos = varint_loop 63 buf pos 0 0"

section \<open>The ZigZag law\<close>

lemma drop63_nonneg: "0 \<le> x \<Longrightarrow> x < 2^63 \<Longrightarrow> drop_bit 63 (x::int) = 0"
  by (simp add: drop_bit_eq_div)

lemma drop63_neg: "x < 0 \<Longrightarrow> - (2^63) \<le> x \<Longrightarrow> drop_bit 63 (x::int) = -1"
  by (simp add: drop_bit_eq_div)

lemma zz_nonneg: "0 \<le> x \<Longrightarrow> x < 2^63 \<Longrightarrow> zigzag_encode x = 2 * x"
  by (simp add: zigzag_encode_def drop63_nonneg push_bit_eq_mult)

lemma zz_neg: "x < 0 \<Longrightarrow> - (2^63) \<le> x \<Longrightarrow> zigzag_encode x = - 2 * x - 1"
  by (simp add: zigzag_encode_def drop63_neg push_bit_eq_mult not_int_def)

lemma zd_even: "even u \<Longrightarrow> zigzag_decode u = u div 2"
  by (simp add: zigzag_decode_def drop_bit_eq_div and_one_eq)

lemma zd_odd: "odd u \<Longrightarrow> zigzag_decode u = - (u div 2) - 1"
  by (simp add: zigzag_decode_def drop_bit_eq_div and_one_eq odd_iff_mod_2_eq_one not_int_def)

lemma zigzag_roundtrip:
  assumes "- (2^63) \<le> x" "x < 2^63"
  shows "zigzag_decode (zigzag_encode x) = x"
proof (cases "0 \<le> x")
  case True
  then show ?thesis using assms by (simp add: zz_nonneg zd_even)
next
  case False
  then have "zigzag_encode x = - 2 * x - 1" using assms by (simp add: zz_neg)
  moreover have "odd (- 2 * x - 1)" by simp
  moreover have "(- 2 * x - 1) div 2 = - x - 1" by linarith
  ultimately show ?thesis by (simp add: zd_odd)
qed

lemma zigzag_range:
  assumes "- (2^63) \<le> x" "x < 2^63"
  shows "0 \<le> zigzag_encode x \<and> zigzag_encode x < 2^64"
proof (cases "0 \<le> x")
  case True
  then show ?thesis using assms by (simp add: zz_nonneg)
next
  case False
  then show ?thesis using assms by (simp add: zz_neg)
qed

lemma zigzag_decode_range:
  assumes "0 \<le> u" "u < 2^64"
  shows "- (2^63) \<le> zigzag_decode u \<and> zigzag_decode u < 2^63 \<and> zigzag_encode (zigzag_decode u) = u"
proof (cases "even u")
  case True
  then have d: "zigzag_decode u = u div 2" by (rule zd_even)
  have "0 \<le> u div 2" "u div 2 < 2^63" using assms by simp_all
  then show ?thesis using True d by (simp add: zz_nonneg)
next
  case False
  then have d: "zigzag_decode u = - (u div 2) - 1" by (rule zd_odd)
  have r: "0 \<le> u div 2" "u div 2 < 2^63" using assms by simp_all
  have "u = 2 * (u div 2) + 1" using False by (simp add: odd_iff_mod_2_eq_one) 
  then show ?thesis using r d by (simp add: zz_neg)
qed

text \<open>
  C4. For every \<open>x\<close> with \<open>-2^63 \<le> x < 2^63\<close>, decoding the zig-zag encoding of
  \<open>x\<close> gives \<open>x\<close> back, and \<open>zigzag_encode\<close> maps that interval one-to-one onto
  \<open>[0, 2^64)\<close>.
\<close>

theorem zigzag_law:
  "(\<forall>x \<in> {- (2^63) ..< 2^63}. zigzag_decode (zigzag_encode x) = x)
   \<and> bij_betw zigzag_encode {- (2^63) ..< 2^63} {0 ..< 2^64}"
proof
  show "\<forall>x \<in> {- (2^63) ..< 2^63}. zigzag_decode (zigzag_encode x) = x"
    by (simp add: zigzag_roundtrip)
  show "bij_betw zigzag_encode {- (2^63) ..< 2^63} {0 ..< 2^64}"
  proof (rule bij_betw_byWitness [where f' = zigzag_decode])
    show "\<forall>a \<in> {- (2^63) ..< 2^63}. zigzag_decode (zigzag_encode a) = a"
      by (simp add: zigzag_roundtrip)
    show "\<forall>a' \<in> {0 ..< 2^64}. zigzag_encode (zigzag_decode a') = a'"
      using zigzag_decode_range by simp
    show "zigzag_encode ` {- (2^63) ..< 2^63} \<subseteq> {0 ..< 2^64}"
      using zigzag_range by auto
    show "zigzag_decode ` {0 ..< 2^64} \<subseteq> {- (2^63) ..< 2^63}"
      using zigzag_decode_range by auto
  qed
qed

theorem zigzag_law_witness:
  "zigzag_decode (zigzag_encode (-3)) = -3 \<and> zigzag_encode (-3) = 5
   \<and> zigzag_encode (- (2^63)) = 2^64 - 1
   \<and> bij_betw zigzag_encode {- (2^63) ..< 2^63} {0 ..< 2^64}"
proof -
  have "(-3::int) \<in> {- (2^63) ..< 2^63}" by simp
  with zigzag_law have "zigzag_decode (zigzag_encode (-3)) = -3" by blast
  moreover have "zigzag_encode (-3) = 5" "zigzag_encode (- (2^63)) = 2^64 - 1"
    by (simp_all add: zz_neg)
  ultimately show ?thesis using zigzag_law by blast
qed

section \<open>Facts about the varint primitives\<close>

lemma and127: "(x::int) AND 127 = x mod 128"
proof -
  have "x AND 127 = x AND mask 7" by (simp add: mask_eq_exp_minus_1)
  also have "\<dots> = take_bit 7 x" by (simp add: take_bit_eq_mask)
  also have "\<dots> = x mod 128" by (simp add: take_bit_eq_mod)
  finally show ?thesis .
qed

lemma and128: "(x::int) AND 128 = 0 \<longleftrightarrow> even (x div 128)"
  using and_exp_eq_0_iff_not_bit [of x 7] by (simp add: bit_iff_odd)

lemma or128: "0 \<le> b \<Longrightarrow> b < 128 \<Longrightarrow> (b::int) OR 128 = b + 128"
proof -
  assume a: "0 \<le> b" "b < 128"
  have "b AND 128 = 0"
    using a by (simp add: and128)
  then show ?thesis by (simp add: disjunctive_add_eq_or)
qed

lemma or_push_add: 
  assumes "0 \<le> u" "u < 2 ^ s"
  shows "u OR push_bit s x = u + 2 ^ s * (x::int)"
proof -
  have t: "take_bit s u = u" using assms by (simp add: take_bit_int_eq_self)
  have "u OR push_bit s x = concat_bit s u x" by (simp add: concat_bit_def t)
  also have "\<dots> = u + push_bit s x" by (simp add: concat_bit_eq t)
  finally show ?thesis by (simp add: push_bit_eq_mult)
qed

text \<open>
  For a non-negative argument the encoding loop returns; \<open>venc\<close> names the bytes it
  returns (a reasoning device: the scripts have no such function).
\<close>

fun venc :: "nat \<Rightarrow> byte list" where
  "venc n = (if n < 128 then [of_nat n] else of_nat (n mod 128 + 128) # venc (n div 128))"

declare venc.simps [simp del]

lemma varint_encode_loop_nat: "varint_encode_loop (int n) out = Some (out @ venc n)"
proof (induction n arbitrary: out rule: venc.induct)
  case (1 n)
  show ?case
  proof (cases "n < 128")
    case True
    then have "drop_bit 7 (int n) = 0" by (simp add: drop_bit_eq_div)
    moreover have "int n AND 127 = int n" using True by (simp add: and127)
    ultimately show ?thesis using True
      by (subst varint_encode_loop.simps) (simp add: venc.simps [of n])
  next
    case False
    have d: "drop_bit 7 (int n) = int (n div 128)" by (simp add: drop_bit_eq_div zdiv_int)
    have nz: "int (n div 128) \<noteq> 0" using False by simp
    have b: "(int n AND 127) OR 128 = int (n mod 128 + 128)"
      by (simp add: and127 or128 zmod_int)
    show ?thesis
      apply (subst varint_encode_loop.simps)
      apply (simp only: Let_def d b nz if_True not_False_eq_True)
      apply (simp only: "1.IH" [OF False])
      using False apply (simp add: venc.simps [of n])
      done
  qed
qed

lemma varint_encode_nonneg: "0 \<le> u \<Longrightarrow> varint_encode u = Some (venc (nat u))"
  using varint_encode_loop_nat [of "nat u" "[]"] by (simp add: varint_encode_def)

lemma varint_encode_loop_Some_nonneg:
  assumes h: "varint_encode_loop u out = Some y"
  shows "0 \<le> u"
proof (rule varint_encode_loop.raw_induct [where P = "\<lambda>u out y. 0 \<le> u", OF _ h])
  fix f :: "int \<Rightarrow> byte list \<Rightarrow> byte list option" and u out y
  assume IH: "\<And>u out y. f u out = Some y \<Longrightarrow> 0 \<le> u"
    and body: "(let b = u AND 0x7F; u' = drop_bit 7 u in
      if u' \<noteq> 0 then f u' (out @ [word_of_int (b OR 0x80)])
      else Some (out @ [word_of_int b])) = Some y"
  show "0 \<le> u"
  proof (cases "drop_bit 7 u = 0")
    case True
    then show ?thesis by (simp add: drop_bit_eq_div)
  next
    case False
    then have "f (drop_bit 7 u) (out @ [word_of_int ((u AND 0x7F) OR 0x80)]) = Some y"
      using body by (simp add: Let_def)
    then have "0 \<le> drop_bit 7 u" by (rule IH)
    then show ?thesis by simp
  qed
qed

lemma varint_encode_neg: "u < 0 \<Longrightarrow> varint_encode u = None"
  using varint_encode_loop_Some_nonneg [of u "[]"] by (cases "varint_encode u") (auto simp: varint_encode_def)

lemma varint_loop_pos:
  "varint_loop lim buf i s u = Inr (v, j) \<Longrightarrow> i < j \<and> j \<le> length buf"
proof (induction lim buf i s u rule: varint_loop.induct)
  case (1 lim buf i shift u)
  show ?case
  proof (cases "i \<ge> length buf")
    case True
    then show ?thesis using "1.prems" by (simp add: varint_loop.simps [of lim buf i])
  next
    case False
    show ?thesis
    proof (cases "uint (buf ! i) AND 0x80 = 0")
      case True
      then show ?thesis using "1.prems" False
        by (simp add: varint_loop.simps [of lim buf i] Let_def)
    next
      case c: False
      then have ok: "\<not> shift + 7 > lim" using "1.prems" False
        by (auto simp add: varint_loop.simps [of lim buf i] Let_def split: if_splits)
      have "varint_loop lim buf (i + 1) (shift + 7) (u OR push_bit shift (uint (buf ! i) AND 0x7F)) = Inr (v, j)"
        using "1.prems" False c ok by (simp add: varint_loop.simps [of lim buf i] Let_def)
      from "1.IH" [OF False refl refl refl c refl ok this] show ?thesis by simp
    qed
  qed
qed

lemma varint_loop_count:
  "varint_loop lim buf i s u = Inr (v, j) \<Longrightarrow> s \<le> lim \<Longrightarrow> 7 * (j - i) + s \<le> lim + 7"
proof (induction lim buf i s u rule: varint_loop.induct)
  case (1 lim buf i shift u)
  show ?case
  proof (cases "i \<ge> length buf")
    case True
    then show ?thesis using "1.prems" by (simp add: varint_loop.simps [of lim buf i])
  next
    case False
    show ?thesis
    proof (cases "uint (buf ! i) AND 0x80 = 0")
      case True
      then have "j = i + 1" using "1.prems" False
        by (simp add: varint_loop.simps [of lim buf i] Let_def)
      then show ?thesis using "1.prems"(2) by simp
    next
      case c: False
      then have ok: "\<not> shift + 7 > lim" using "1.prems" False
        by (auto simp add: varint_loop.simps [of lim buf i] Let_def split: if_splits)
      have r: "varint_loop lim buf (i + 1) (shift + 7) (u OR push_bit shift (uint (buf ! i) AND 0x7F)) = Inr (v, j)"
        using "1.prems" False c ok by (simp add: varint_loop.simps [of lim buf i] Let_def)
      have le: "shift + 7 \<le> lim" using ok by simp
      from "1.IH" [OF False refl refl refl c refl ok r le]
      have "7 * (j - (i + 1)) + (shift + 7) \<le> lim + 7" .
      moreover have "i + 1 < j" using varint_loop_pos [OF r] by simp
      ultimately show ?thesis by linarith
    qed
  qed
qed

lemma venc_nonempty: "venc n \<noteq> []"
  by (simp add: venc.simps [of n])

lemma venc_length: "0 < k \<Longrightarrow> n < 2 ^ (7 * k) \<Longrightarrow> length (venc n) \<le> k"
proof (induction k arbitrary: n)
  case 0
  then show ?case by simp
next
  case (Suc k)
  show ?case
  proof (cases "n < 128")
    case True
    then show ?thesis by (simp add: venc.simps [of n])
  next
    case False
    have "n div 128 < 2 ^ (7 * k)" using Suc.prems(2) by (simp add: less_mult_imp_div_less power_add mult.commute)
    moreover have "0 < k" using False Suc.prems(2) by (cases k) auto
    ultimately have "length (venc (n div 128)) \<le> k" by (rule Suc.IH [rotated])
    then show ?thesis using False by (simp add: venc.simps [of n])
  qed
qed

lemma uint_byte: "n < 256 \<Longrightarrow> uint (of_nat n :: byte) = int n"
  by (simp add: unsigned_of_nat take_bit_nat_eq_self)

lemma varint_loop_venc:
  assumes "0 \<le> u" "u < 2 ^ s" "s + 7 * (length (venc n) - 1) \<le> lim"
  shows "varint_loop lim (pre @ venc n @ rest) (length pre) s u
         = Inr (u + 2 ^ s * int n, length pre + length (venc n))"
  using assms
proof (induction n arbitrary: pre s u rule: venc.induct)
  case (1 n)
  show ?case
  proof (cases "n < 128")
    case True
    then have e: "venc n = [of_nat n]" by (simp add: venc.simps [of n])
    have b: "uint (of_nat n :: byte) = int n" using True by (simp add: uint_byte)
    have "int n AND 127 = int n" "int n AND 128 = 0" using True by (simp_all add: and127 and128)
    then show ?thesis using "1.prems" 
      by (simp add: varint_loop.simps [of lim _ "length pre"] e b Let_def or_push_add del: push_bit_and)
  next
    case False
    define bb :: byte where "bb = of_nat (n mod 128 + 128)"
    have e: "venc n = bb # venc (n div 128)" using False by (simp add: venc.simps [of n] bb_def)
    have b: "uint bb = int (n mod 128 + 128)" unfolding bb_def by (rule uint_byte) simp
    have m: "uint bb AND 127 = int (n mod 128)" by (simp add: b and127 zmod_int)
    have "(int (n mod 128) + 128) div 128 = 1" by simp
    then have c: "uint bb AND 128 \<noteq> 0" by (simp add: b and128)
    have len: "length (venc n) = Suc (length (venc (n div 128)))" by (simp add: e)
    have ne: "0 < length (venc (n div 128))" by (simp add: venc_nonempty)
    have ok: "\<not> s + 7 > lim" using "1.prems"(3) ne unfolding len by linarith
    let ?u = "u OR push_bit s (int (n mod 128))"
    have u': "?u = u + 2 ^ s * int (n mod 128)" using "1.prems" by (simp add: or_push_add)
    have a: "2 ^ s * int (n mod 128) \<le> 2 ^ s * 127" by (intro mult_left_mono) simp_all
    have "u + 2 ^ s * int (n mod 128) < 2 ^ s * 1 + 2 ^ s * 127" using a "1.prems"(2) by linarith
    also have "\<dots> = 2 ^ (s + 7)" by (simp add: power_add)
    finally have bound: "0 \<le> ?u" "?u < 2 ^ (s + 7)" using "1.prems"(1) by (simp_all add: u')
    have lim': "s + 7 + 7 * (length (venc (n div 128)) - 1) \<le> lim"
      using "1.prems"(3) ne unfolding len by linarith
    have step: "varint_loop lim (pre @ venc n @ rest) (length pre) s u
       = varint_loop lim ((pre @ [bb]) @ venc (n div 128) @ rest) (length (pre @ [bb])) (s + 7) ?u"
      using ok by (simp add: varint_loop.simps [of lim _ "length pre"] e m c Let_def del: push_bit_and)
    have "n = n mod 128 + 128 * (n div 128)" by simp
    then have "int n = int (n mod 128 + 128 * (n div 128))" by (rule arg_cong)
    then have "int n = int (n mod 128) + 128 * int (n div 128)" by (simp only: of_nat_add of_nat_mult of_nat_numeral)
    then have "?u + 2 ^ (s + 7) * int (n div 128) = u + 2 ^ s * int n"
      by (simp add: u' power_add algebra_simps)
    then show ?thesis
      unfolding step "1.IH" [OF False bound lim'] by (simp add: len)
  qed
qed

section \<open>Reading and writing rows of zig-zag varints\<close>

text \<open>
  \<open>for x in tup: out += varint_encode(zigzag_encode(int(x)))\<close>, the loop every encoder
  uses for the base row and for a tuple of deltas. A Python tuple of integers is an
  \<open>int list\<close>; tuple equality is list equality.
\<close>

fun write_ints :: "int list \<Rightarrow> byte list option" where
  "write_ints [] = Some []"
| "write_ints (x # xs) =
     do { a \<leftarrow> varint_encode (zigzag_encode x);
          b \<leftarrow> write_ints xs;
          Some (a @ b) }"

text \<open>
  \<open>for _ in range(k): u, i = varint_decode(buf, i); vals.append(zigzag_decode(u))\<close>,
  with the bound \<open>lim\<close> of the module's \<open>varint_decode\<close>.
\<close>

fun read_ints :: "nat \<Rightarrow> nat \<Rightarrow> byte list \<Rightarrow> nat \<Rightarrow> error + (int list \<times> nat)" where
  "read_ints lim 0 buf i = Inr ([], i)"
| "read_ints lim (Suc k) buf i =
     (case varint_loop lim buf i 0 0 of
        Inl e \<Rightarrow> Inl e
      | Inr (u, i') \<Rightarrow>
          (case read_ints lim k buf i' of
             Inl e \<Rightarrow> Inl e
           | Inr (vals, i'') \<Rightarrow> Inr (zigzag_decode u # vals, i'')))"

section \<open>Case-01: OHLCV bars (star\_case01\_spx\_replay.py)\<close>

record Bar =
  d_days :: int
  bar_o :: int
  bar_h :: int
  bar_l :: int
  bar_c :: int
  bar_v :: int

definition bar_vals :: "Bar \<Rightarrow> int list" where
  "bar_vals b = [d_days b, bar_o b, bar_h b, bar_l b, bar_c b, bar_v b]"

text \<open>\<open>Bar(*vals)\<close> and \<open>d, o, h, l, c, v = base\<close>: the six values read, in order.\<close>

definition mk_bar :: "int list \<Rightarrow> Bar" where
  "mk_bar vals = \<lparr>d_days = vals ! 0, bar_o = vals ! 1, bar_h = vals ! 2,
                  bar_l = vals ! 3, bar_c = vals ! 4, bar_v = vals ! 5\<rparr>"

text \<open>The delta tuple \<open>(b.d_days - prev.d_days, ..., b.v - prev.v)\<close> (lines 153--160).\<close>

definition bar_sub :: "Bar \<Rightarrow> Bar \<Rightarrow> int list" where
  "bar_sub b prev = [d_days b - d_days prev, bar_o b - bar_o prev, bar_h b - bar_h prev,
                     bar_l b - bar_l prev, bar_c b - bar_c prev, bar_v b - bar_v prev]"

text \<open>\<open>Bar(prev.d_days + dd, ..., prev.v + dv)\<close> with \<open>dd, do, dh, dl, dc, dv = tup\<close>.\<close>

definition bar_add :: "Bar \<Rightarrow> int list \<Rightarrow> Bar" where
  "bar_add prev tup = \<lparr>d_days = d_days prev + tup ! 0, bar_o = bar_o prev + tup ! 1,
                        bar_h = bar_h prev + tup ! 2, bar_l = bar_l prev + tup ! 3,
                        bar_c = bar_c prev + tup ! 4, bar_v = bar_v prev + tup ! 5\<rparr>"

definition STAR1 :: "byte list" where
  "STAR1 = [0x53, 0x54, 0x41, 0x52, 0x31]"

subsection \<open>encode\_star (lines 135--187)\<close>

text \<open>\<open>prev = b0; for b in bars[1:]: deltas.append(...); prev = b\<close>\<close>

fun deltas1 :: "Bar \<Rightarrow> Bar list \<Rightarrow> int list list" where
  "deltas1 prev [] = []"
| "deltas1 prev (b # bs) = bar_sub b prev # deltas1 b bs"

text \<open>The inner \<open>while j < len(deltas) and deltas[j] == tup and run < 10_000_000\<close>.\<close>

function scan_run :: "int list list \<Rightarrow> int list \<Rightarrow> nat \<Rightarrow> nat \<Rightarrow> nat \<times> nat" where
  "scan_run deltas tup run j =
     (if j < length deltas \<and> deltas ! j = tup \<and> run < 10000000
      then scan_run deltas tup (run + 1) (j + 1)
      else (run, j))"
  by pat_completeness auto
termination
  by (relation "measure (\<lambda>(deltas, tup, run, j). length deltas - j)") auto

declare scan_run.simps [simp del]

lemma scan_run_mono: "scan_run deltas tup run j = (r, j') \<Longrightarrow> j \<le> j' \<and> run \<le> r \<and> j' \<le> max j (length deltas)"
proof (induction deltas tup run j rule: scan_run.induct)
  case (1 deltas tup run j)
  show ?case
  proof (cases "j < length deltas \<and> deltas ! j = tup \<and> run < 10000000")
    case True
    then have "scan_run deltas tup (run + 1) (j + 1) = (r, j')"
      using "1.prems" by (simp add: scan_run.simps [of deltas tup run j])
    from "1.IH" [OF True this] True show ?thesis by auto
  next
    case False
    then show ?thesis using "1.prems" by (auto simp add: scan_run.simps [of deltas tup run j])
  qed
qed

text \<open>One pass of the outer \<open>while i < len(deltas)\<close>: the bytes of the block(s) emitted.\<close>

definition emit_block :: "nat \<Rightarrow> int list \<Rightarrow> byte list option" where
  "emit_block run tup =
     (if run \<ge> 3
      then do { r \<leftarrow> varint_encode (int run);
                t \<leftarrow> write_ints tup;
                Some (0 # r @ t) }
      else do { t \<leftarrow> write_ints tup;
                Some (concat (replicate run (1 # t))) })"

function encode_blocks :: "int list list \<Rightarrow> nat \<Rightarrow> byte list option" where
  "encode_blocks deltas i =
     (if i < length deltas then
        (case scan_run deltas (deltas ! i) 1 (i + 1) of
           (run, j) \<Rightarrow>
             (case emit_block run (deltas ! i) of
                None \<Rightarrow> None
              | Some blk \<Rightarrow>
                  (case encode_blocks deltas j of
                     None \<Rightarrow> None
                   | Some rest \<Rightarrow> Some (blk @ rest))))
      else Some [])"
  by pat_completeness auto
termination
  apply (relation "measure (\<lambda>(deltas, i). length deltas - i)")
   apply simp
  apply (auto dest!: scan_run_mono [OF sym])
  done

declare encode_blocks.simps [simp del]

definition encode_star :: "Bar list \<Rightarrow> int \<Rightarrow> byte list option" where
  "encode_star bars price_scale =
     (case bars of
        [] \<Rightarrow> do { z \<leftarrow> varint_encode 0; Some (STAR1 @ z) }
      | b0 # rest \<Rightarrow>
          do { n \<leftarrow> varint_encode (int (length bars));
               ps \<leftarrow> varint_encode price_scale;
               base \<leftarrow> write_ints (bar_vals b0);
               body \<leftarrow> encode_blocks (deltas1 b0 rest) 0;
               Some (STAR1 @ n @ ps @ base @ body) })"

subsection \<open>decode\_star (lines 231--297)\<close>

lemma read_ints_pos: "read_ints lim k buf i = Inr (vals, j) \<Longrightarrow> i \<le> j \<and> j \<le> max i (length buf) \<and> length vals = k"
proof (induction k arbitrary: i vals j)
  case 0
  then show ?case by simp
next
  case (Suc k)
  from Suc.prems obtain u i' vals' where
    a: "varint_loop lim buf i 0 0 = Inr (u, i')" and b: "read_ints lim k buf i' = Inr (vals', j)"
    and c: "vals = zigzag_decode u # vals'"
    by (auto split: sum.splits)
  from varint_loop_pos [OF a] Suc.IH [OF b] c show ?case by auto
qed

text \<open>\<open>for _ in range(int(run)): prev = bars[-1]; bars.append(Bar(prev + tup))\<close>\<close>

fun apply_run :: "nat \<Rightarrow> int list \<Rightarrow> Bar list \<Rightarrow> Bar list" where
  "apply_run 0 tup bars = bars"
| "apply_run (Suc k) tup bars = apply_run k tup (bars @ [bar_add (last bars) tup])"

function decode_loop :: "byte list \<Rightarrow> int \<Rightarrow> Bar list \<Rightarrow> nat \<Rightarrow> error + Bar list" where
  "decode_loop buf n bars i =
     (if \<not> int (length bars) < n then Inr bars
      else if i \<ge> length buf then Inl TruncatedBody
      else
        let tag = buf ! i in
        if tag = 0 then
          (case varint_decode buf (i + 1) of
             Inl e \<Rightarrow> Inl e
           | Inr (run, i1) \<Rightarrow>
               (case read_ints 63 6 buf i1 of
                  Inl e \<Rightarrow> Inl e
                | Inr (tup, i2) \<Rightarrow> decode_loop buf n (apply_run (nat run) tup bars) i2))
        else if tag = 1 then
          (case read_ints 63 6 buf (i + 1) of
             Inl e \<Rightarrow> Inl e
           | Inr (tup, i2) \<Rightarrow> decode_loop buf n (bars @ [bar_add (last bars) tup]) i2)
        else Inl BadTag)"
  by pat_completeness auto
termination
  apply (relation "measure (\<lambda>(buf, n, bars, i). length buf - i)")
    apply simp
   apply (auto simp: varint_decode_def dest!: varint_loop_pos read_ints_pos)
  done

declare decode_loop.simps [simp del]

definition decode_star :: "byte list \<Rightarrow> error + Bar list" where
  "decode_star buf =
     (if take 5 buf \<noteq> STAR1 then Inl BadMagic
      else
        (case varint_decode buf 5 of
           Inl e \<Rightarrow> Inl e
         | Inr (n, i) \<Rightarrow>
             if n = 0 then Inr []
             else
               (case varint_decode buf i of
                  Inl e \<Rightarrow> Inl e
                | Inr (price_scale, i1) \<Rightarrow>
                    (case read_ints 63 6 buf i1 of
                       Inl e \<Rightarrow> Inl e
                     | Inr (base, i2) \<Rightarrow> decode_loop buf n [mk_bar base] i2))))"

subsection \<open>The index builder (star\_index\_case01.py)\<close>

text \<open>
  \<open>parse_star1_header\<close> (lines 51--69) returns \<open>(n, price_scale, base, i)\<close> with
  \<open>i\<close> the start of the body.
\<close>

definition parse_star1_header :: "byte list \<Rightarrow> error + (int \<times> int \<times> Bar \<times> nat)" where
  "parse_star1_header buf =
     (if take 5 buf \<noteq> STAR1 then Inl BadMagic
      else
        (case varint_decode buf 5 of
           Inl e \<Rightarrow> Inl e
         | Inr (n, i) \<Rightarrow>
             if n = 0 then Inr (0, 0, mk_bar [0, 0, 0, 0, 0, 0], i)
             else
               (case varint_decode buf i of
                  Inl e \<Rightarrow> Inl e
                | Inr (price_scale, i1) \<Rightarrow>
                    (case read_ints 63 6 buf i1 of
                       Inl e \<Rightarrow> Inl e
                     | Inr (vals, i2) \<Rightarrow> Inr (n, price_scale, mk_bar vals, i2)))))"

text \<open>\<open>decode_block\<close> (lines 76--100) returns the delta tuple, the run and the new position.\<close>

definition decode_block :: "byte list \<Rightarrow> nat \<Rightarrow> error + (int list \<times> int \<times> nat)" where
  "decode_block buf i =
     (if i \<ge> length buf then Inl TruncatedBody
      else
        let tag = buf ! i in
        if tag = 0 then
          (case varint_decode buf (i + 1) of
             Inl e \<Rightarrow> Inl e
           | Inr (run, i1) \<Rightarrow>
               (case read_ints 63 6 buf i1 of
                  Inl e \<Rightarrow> Inl e
                | Inr (vals, i2) \<Rightarrow> Inr (vals, run, i2)))
        else if tag = 1 then
          (case read_ints 63 6 buf (i + 1) of
             Inl e \<Rightarrow> Inl e
           | Inr (vals, i2) \<Rightarrow> Inr (vals, 1, i2))
        else Inl BadTag)"

lemma decode_block_pos:
  "decode_block buf i = Inr (tup, run, j) \<Longrightarrow> i < j \<and> j \<le> length buf \<and> i < length buf \<and> length tup = 6"
  by (auto simp: decode_block_def Let_def varint_decode_def split: if_splits sum.splits
           dest!: varint_loop_pos read_ints_pos)

type_synonym anchor = "nat \<times> nat \<times> Bar"

text \<open>
  \<open>for _ in range(run): cur = Bar(cur + tup); row += 1; if row >= n_rows: break\<close>
  (lines 159--170).
\<close>

fun index_run :: "nat \<Rightarrow> int list \<Rightarrow> int \<Rightarrow> Bar \<Rightarrow> nat \<Rightarrow> Bar \<times> nat" where
  "index_run 0 tup n_rows cur row = (cur, row)"
| "index_run (Suc k) tup n_rows cur row =
     (let cur' = bar_add cur tup; row' = row + 1
      in if int row' \<ge> n_rows then (cur', row') else index_run k tup n_rows cur' row')"

text \<open>
  The \<open>while row < n_rows - 1\<close> loop of \<open>build_index\<close> (lines 147--175); \<open>row % 0\<close>
  raises ZeroDivisionError.
\<close>

function index_loop :: "byte list \<Rightarrow> int \<Rightarrow> int \<Rightarrow> anchor list \<Rightarrow> nat \<Rightarrow> nat \<Rightarrow> Bar
    \<Rightarrow> error + (anchor list \<times> nat \<times> nat \<times> Bar)" where
  "index_loop buf n_rows anchor_every anchors row pos cur =
     (if \<not> int row < n_rows - 1 then Inr (anchors, row, pos, cur)
      else if anchor_every = 0 then Inl ZeroDivision
      else
        let anchors' =
              (if int row mod anchor_every = 0
                  \<and> \<not> (row = 0 \<and> anchors \<noteq> [] \<and> fst (last anchors) = 0)
               then anchors @ [(row, pos, cur)] else anchors)
        in
          (case decode_block buf pos of
             Inl e \<Rightarrow> Inl e
           | Inr (tup, run, pos2) \<Rightarrow>
               (case index_run (nat run) tup n_rows cur row of
                  (cur', row') \<Rightarrow>
                    if pos2 > length buf then Inl Internal
                    else index_loop buf n_rows anchor_every anchors' row' pos2 cur')))"
  by pat_completeness auto
termination
  apply (relation "measure (\<lambda>(buf, n_rows, anchor_every, anchors, row, pos, cur). length buf - pos)")
   apply simp
  apply (auto dest!: decode_block_pos)
  done

declare index_loop.simps [simp del]

definition build_index :: "byte list \<Rightarrow> int \<Rightarrow> error + (int \<times> anchor list)" where
  "build_index buf anchor_every =
     (case parse_star1_header buf of
        Inl e \<Rightarrow> Inl e
      | Inr (n_rows, price_scale, base, body_i) \<Rightarrow>
          if n_rows = 0 then Inr (0, [(0, body_i, base)])
          else
            (case index_loop buf n_rows anchor_every [(0, body_i, base)] 0 body_i base of
               Inl e \<Rightarrow> Inl e
             | Inr (anchors, row, pos, cur) \<Rightarrow>
                 if fst (last anchors) \<noteq> row
                 then Inr (n_rows, anchors @ [(row, pos, cur)])
                 else Inr (n_rows, anchors)))"

subsection \<open>The replay engine (star\_replay\_case01.py)\<close>

text \<open>\<open>want_now\<close> (lines 148--153).\<close>

definition want_now :: "int option \<Rightarrow> int option \<Rightarrow> nat \<Rightarrow> Bar \<Rightarrow> bool" where
  "want_now seek_row seek_days row_i bar =
     (case seek_row of
        Some s \<Rightarrow> int row_i \<ge> s
      | None \<Rightarrow> (case seek_days of Some d \<Rightarrow> d_days bar \<ge> d | None \<Rightarrow> True))"

text \<open>
  The \<open>for _ in range(run)\<close> loop of \<open>replay_from\<close> (lines 163--180) with its two
  \<open>break\<close>s.
\<close>

fun replay_run :: "nat \<Rightarrow> int list \<Rightarrow> int \<Rightarrow> int option \<Rightarrow> int option \<Rightarrow> int
    \<Rightarrow> Bar \<Rightarrow> nat \<Rightarrow> (nat \<times> Bar) list \<Rightarrow> Bar \<times> nat \<times> (nat \<times> Bar) list" where
  "replay_run 0 tup n_rows seek_row seek_days out_rows cur row results = (cur, row, results)"
| "replay_run (Suc k) tup n_rows seek_row seek_days out_rows cur row results =
     (let cur' = bar_add cur tup; row' = row + 1 in
      if want_now seek_row seek_days row' cur' then
        (let results' = results @ [(row', cur')] in
         if int (length results') \<ge> out_rows then (cur', row', results')
         else if int row' \<ge> n_rows - 1 then (cur', row', results')
         else replay_run k tup n_rows seek_row seek_days out_rows cur' row' results')
      else if int row' \<ge> n_rows - 1 then (cur', row', results)
      else replay_run k tup n_rows seek_row seek_days out_rows cur' row' results)"

function replay_loop :: "byte list \<Rightarrow> int \<Rightarrow> int option \<Rightarrow> int option \<Rightarrow> int
    \<Rightarrow> nat \<Rightarrow> nat \<Rightarrow> Bar \<Rightarrow> (nat \<times> Bar) list \<Rightarrow> error + (nat \<times> Bar) list" where
  "replay_loop buf n_rows seek_row seek_days out_rows row pos cur results =
     (if \<not> (int row < n_rows - 1 \<and> int (length results) < out_rows) then Inr results
      else
        (case decode_block buf pos of
           Inl e \<Rightarrow> Inl e
         | Inr (tup, run, pos2) \<Rightarrow>
             (case replay_run (nat run) tup n_rows seek_row seek_days out_rows cur row results of
                (cur', row', results') \<Rightarrow>
                  replay_loop buf n_rows seek_row seek_days out_rows row' pos2 cur' results')))"
  by pat_completeness auto
termination
  apply (relation "measure (\<lambda>(buf, n_rows, seek_row, seek_days, out_rows, row, pos, cur, results). length buf - pos)")
   apply simp
  apply (auto dest!: decode_block_pos)
  done

declare replay_loop.simps [simp del]

definition replay_from :: "byte list \<Rightarrow> nat \<Rightarrow> nat \<Rightarrow> Bar \<Rightarrow> int \<Rightarrow> int option \<Rightarrow> int option
    \<Rightarrow> int \<Rightarrow> error + (nat \<times> Bar) list" where
  "replay_from star_buf start_row start_pos start_bar n_rows seek_row seek_days out_rows =
     replay_loop star_buf n_rows seek_row seek_days out_rows start_row start_pos start_bar
       (if want_now seek_row seek_days start_row start_bar then [(start_row, start_bar)] else [])"

section \<open>The wire format of a row and of a block\<close>

text \<open>
  Reasoning devices, not functions of the scripts: \<open>wints\<close> names the bytes that
  \<open>write_ints\<close> returns, \<open>dz\<close> the value a decoder reads back for a written value,
  \<open>fits lim n\<close> says that the varint of \<open>n\<close> is short enough for a decoder with bound
  \<open>lim\<close>, and \<open>wire_blk (r, t)\<close> is a block as it stands in the body: tag 0, run and
  tuple for \<open>r \<ge> 3\<close>, tag 1 and tuple otherwise.
\<close>

definition wints :: "int list \<Rightarrow> byte list" where
  "wints xs = concat (map (\<lambda>x. venc (nat (zigzag_encode x))) xs)"

definition dz :: "int \<Rightarrow> int" where
  "dz x = zigzag_decode (zigzag_encode x)"

definition fits :: "nat \<Rightarrow> nat \<Rightarrow> bool" where
  "fits lim n \<longleftrightarrow> 7 * (length (venc n) - 1) \<le> lim"

definition fits_all :: "nat \<Rightarrow> int list \<Rightarrow> bool" where
  "fits_all lim xs \<longleftrightarrow> list_all (\<lambda>x. fits lim (nat (zigzag_encode x))) xs"

fun wire_blk :: "nat \<times> int list \<Rightarrow> byte list" where
  "wire_blk (r, t) = (if r \<ge> 3 then 0 # venc r @ wints t else 1 # wints t)"

declare wire_blk.simps [simp del]

definition wire :: "(nat \<times> int list) list \<Rightarrow> byte list" where
  "wire bs = concat (map wire_blk bs)"

lemma zigzag_encode_nonneg: "0 \<le> zigzag_encode x"
  by (simp add: zigzag_encode_def)

lemma write_ints_wints: "write_ints xs = Some (wints xs)"
  by (induction xs) (simp_all add: wints_def varint_encode_nonneg zigzag_encode_nonneg)

lemma wints_Cons: "wints (x # xs) = venc (nat (zigzag_encode x)) @ wints xs"
  by (simp add: wints_def)

lemma wints_Nil: "wints [] = []"
  by (simp add: wints_def)

lemma fits_small: "n < 2 ^ (7 * (lim div 7 + 1)) \<Longrightarrow> fits lim n"
proof -
  assume "n < 2 ^ (7 * (lim div 7 + 1))"
  then have "length (venc n) \<le> lim div 7 + 1" by (intro venc_length) simp_all
  then have "7 * (length (venc n) - 1) \<le> 7 * (lim div 7)" by simp
  also have "\<dots> \<le> lim" by simp
  finally show ?thesis by (simp add: fits_def)
qed

lemma fits63: "n < 2 ^ 70 \<Longrightarrow> fits 63 n"
  using fits_small [of n 63] by simp

lemma fits70: "n < 2 ^ 77 \<Longrightarrow> fits 70 n"
  using fits_small [of n 70] by simp

lemma varint_loop_venc_over:
  assumes "s \<le> lim" "\<not> s + 7 * (length (venc n) - 1) \<le> lim"
  shows "varint_loop lim (pre @ venc n @ rest) (length pre) s u = Inl Overlong"
  using assms
proof (induction n arbitrary: pre s u rule: venc.induct)
  case (1 n)
  show ?case
  proof (cases "n < 128")
    case True
    then have "venc n = [of_nat n]" by (simp add: venc.simps [of n])
    then show ?thesis using "1.prems" by simp
  next
    case False
    define bb :: byte where "bb = of_nat (n mod 128 + 128)"
    have e: "venc n = bb # venc (n div 128)" using False by (simp add: venc.simps [of n] bb_def)
    have b: "uint bb = int (n mod 128 + 128)" unfolding bb_def by (rule uint_byte) simp
    have "(int (n mod 128) + 128) div 128 = 1" by simp
    then have c: "uint bb AND 128 \<noteq> 0" by (simp add: b and128)
    have len: "length (venc n) = Suc (length (venc (n div 128)))" by (simp add: e)
    show ?thesis
    proof (cases "s + 7 > lim")
      case True
      then show ?thesis
        by (simp add: varint_loop.simps [of lim _ "length pre"] e c Let_def del: push_bit_and)
    next
      case ok: False
      let ?u = "u OR push_bit s (uint bb AND 127)"
      have step: "varint_loop lim (pre @ venc n @ rest) (length pre) s u
         = varint_loop lim ((pre @ [bb]) @ venc (n div 128) @ rest) (length (pre @ [bb])) (s + 7) ?u"
        using ok by (simp add: varint_loop.simps [of lim _ "length pre"] e c Let_def del: push_bit_and)
      have a: "s + 7 \<le> lim" using ok by simp
      have b: "\<not> s + 7 + 7 * (length (venc (n div 128)) - 1) \<le> lim"
        using "1.prems"(2) venc_nonempty [of "n div 128"] unfolding len
        by (cases "venc (n div 128)") auto
      show ?thesis unfolding step by (rule "1.IH" [OF False a b])
    qed
  qed
qed

lemma varint_loop_venc_full:
  "varint_loop lim (pre @ venc n @ rest) (length pre) 0 0
     = (if fits lim n then Inr (int n, length pre + length (venc n)) else Inl Overlong)"
proof (cases "fits lim n")
  case True
  then show ?thesis using varint_loop_venc [of 0 0 n lim pre rest] by (simp add: fits_def)
next
  case False
  then show ?thesis using varint_loop_venc_over [of 0 lim n pre rest 0] by (simp add: fits_def)
qed

lemma read_ints_wints:
  "read_ints lim (length t) (pre @ wints t @ rest) (length pre)
     = (if fits_all lim t then Inr (map dz t, length pre + length (wints t)) else Inl Overlong)"
proof (induction t arbitrary: pre)
  case Nil
  then show ?case by (simp add: wints_Nil fits_all_def)
next
  case (Cons x t)
  let ?v = "venc (nat (zigzag_encode x))"
  have v: "varint_loop lim (pre @ ?v @ wints t @ rest) (length pre) 0 0
     = (if fits lim (nat (zigzag_encode x)) then Inr (zigzag_encode x, length pre + length ?v) else Inl Overlong)"
    using varint_loop_venc_full [of lim pre "nat (zigzag_encode x)" "wints t @ rest"]
    by (simp add: zigzag_encode_nonneg)
  have r: "read_ints lim (length t) ((pre @ ?v) @ wints t @ rest) (length (pre @ ?v))
     = (if fits_all lim t then Inr (map dz t, length (pre @ ?v) + length (wints t)) else Inl Overlong)"
    by (rule Cons.IH)
  show ?case using v r by (simp add: wints_Cons fits_all_def dz_def)
qed

lemma dz_id: "- (2 ^ 63) \<le> x \<Longrightarrow> x < 2 ^ 63 \<Longrightarrow> dz x = x"
  by (simp add: dz_def zigzag_roundtrip)

lemma fits_i64: "- (2 ^ 63) \<le> x \<Longrightarrow> x < 2 ^ 63 \<Longrightarrow> fits lim (nat (zigzag_encode x))" if "63 \<le> lim"
proof -
  assume "- (2 ^ 63) \<le> x" "x < 2 ^ 63"
  then have "nat (zigzag_encode x) < 2 ^ 64" using zigzag_range [of x] by (simp add: nat_less_iff)
  then have "nat (zigzag_encode x) < 2 ^ 70" by simp 
  then have "fits 63 (nat (zigzag_encode x))" by (rule fits63)
  then show ?thesis using that by (simp add: fits_def)
qed

section \<open>Case-01: the layout of an encoded blob\<close>

text \<open>
  \<open>expand\<close> lists the delta tuples a block list stands for; \<open>seg1\<close> lists the blocks
  the greedy loop of \<open>encode_star\<close> emits from position \<open>i\<close> on (reasoning devices).
\<close>

definition expand :: "(nat \<times> int list) list \<Rightarrow> int list list" where
  "expand bs = concat (map (\<lambda>(r, t). replicate r t) bs)"

function seg1 :: "int list list \<Rightarrow> nat \<Rightarrow> (nat \<times> int list) list" where
  "seg1 deltas i =
     (if i < length deltas then
        (case scan_run deltas (deltas ! i) 1 (i + 1) of
           (run, j) \<Rightarrow>
             (if run \<ge> 3 then [(run, deltas ! i)] else replicate run (1, deltas ! i))
             @ seg1 deltas j)
      else [])"
  by pat_completeness auto
termination
  apply (relation "measure (\<lambda>(deltas, i). length deltas - i)")
   apply simp
  apply (auto dest!: scan_run_mono [OF sym])
  done

declare seg1.simps [simp del]

lemma scan_run_spec:
  "scan_run deltas tup run j = (r, j') \<Longrightarrow> j \<le> length deltas \<Longrightarrow>
     r + j = run + j' \<and> j' \<le> length deltas \<and> r \<le> max run 10000000
     \<and> (\<forall>k. j \<le> k \<and> k < j' \<longrightarrow> deltas ! k = tup)"
proof (induction deltas tup run j rule: scan_run.induct)
  case (1 deltas tup run j)
  show ?case
  proof (cases "j < length deltas \<and> deltas ! j = tup \<and> run < 10000000")
    case True
    then have s: "scan_run deltas tup (run + 1) (j + 1) = (r, j')"
      using "1.prems" by (simp add: scan_run.simps [of deltas tup run j])
    have "j + 1 \<le> length deltas" using True by simp
    from "1.IH" [OF True s this] True
    have a: "r + (j + 1) = run + 1 + j'" "j' \<le> length deltas" "r \<le> max (run + 1) 10000000"
      and b: "\<forall>k. j + 1 \<le> k \<and> k < j' \<longrightarrow> deltas ! k = tup" by auto
    have "deltas ! k = tup" if "j \<le> k" "k < j'" for k
    proof (cases "k = j")
      case True
      then show ?thesis using \<open>j < length deltas \<and> deltas ! j = tup \<and> run < 10000000\<close> by simp
    next
      case False
      then show ?thesis using b that by simp
    qed
    then show ?thesis using a True by auto
  next
    case False
    then show ?thesis using "1.prems" by (auto simp add: scan_run.simps [of deltas tup run j])
  qed
qed

lemma scan_run_first:
  assumes "scan_run deltas (deltas ! i) 1 (i + 1) = (r, j)" "i < length deltas"
  shows "j = i + r" "1 \<le> r" "r \<le> 10000000" "i + r \<le> length deltas"
        "take r (drop i deltas) = replicate r (deltas ! i)"
proof -
  from scan_run_spec [OF assms(1)] assms(2)
  have a: "r + (i + 1) = 1 + j" "j \<le> length deltas" "r \<le> 10000000"
    and eq: "\<forall>k. i + 1 \<le> k \<and> k < j \<longrightarrow> deltas ! k = deltas ! i" by auto
  show j: "j = i + r" using a by simp
  show "1 \<le> r" using scan_run_mono [OF assms(1)] by simp
  show "r \<le> 10000000" by (rule a)
  show le: "i + r \<le> length deltas" using a j by simp
  show "take r (drop i deltas) = replicate r (deltas ! i)"
  proof (rule nth_equalityI)
    show "length (take r (drop i deltas)) = length (replicate r (deltas ! i))" using le by simp
  next
    fix k assume "k < length (take r (drop i deltas))"
    then have k: "k < r" by simp
    have "deltas ! (i + k) = deltas ! i"
    proof (cases k)
      case 0
      then show ?thesis by simp
    next
      case (Suc m)
      then show ?thesis using eq k j by simp
    qed
    then show "take r (drop i deltas) ! k = replicate r (deltas ! i) ! k" using k le by simp
  qed
qed

lemma expand_append: "expand (xs @ ys) = expand xs @ expand ys"
  by (simp add: expand_def)

lemma expand_replicate1: "expand (replicate r (Suc 0, t)) = replicate r t"
  by (induction r) (simp_all add: expand_def)

lemma seg1_expand: "expand (seg1 deltas i) = drop i deltas"
proof (induction deltas i rule: seg1.induct)
  case (1 deltas i)
  show ?case
  proof (cases "i < length deltas")
    case False
    then show ?thesis by (simp add: seg1.simps [of deltas i] expand_def)
  next
    case True
    obtain r j where s: "scan_run deltas (deltas ! i) 1 (i + 1) = (r, j)" by (cases "scan_run deltas (deltas ! i) 1 (i + 1)")
    note f = scan_run_first [OF s True]
    have ih: "expand (seg1 deltas j) = drop j deltas" by (rule "1.IH" [OF True s [symmetric]])
    have "drop i deltas = take r (drop i deltas) @ drop r (drop i deltas)"
      by (simp only: append_take_drop_id)
    also have "\<dots> = replicate r (deltas ! i) @ drop j deltas" using f by (simp add: add.commute)
    finally have d: "drop i deltas = replicate r (deltas ! i) @ drop j deltas" .
    have "expand (if 3 \<le> r then [(r, deltas ! i)] else replicate r (1, deltas ! i)) = replicate r (deltas ! i)"
      using expand_replicate1 by (simp add: expand_def)
    then show ?thesis using True s ih d by (simp add: seg1.simps [of deltas i] expand_append)
  qed
qed

text \<open>The shape of a block: a literal (run 1) or a run of 3 to 10,000,000, over a 6-tuple.\<close>

definition shape1 :: "nat \<times> int list \<Rightarrow> bool" where
  "shape1 b \<longleftrightarrow> (fst b = 1 \<or> 3 \<le> fst b) \<and> fst b \<le> 10000000 \<and> length (snd b) = 6"

lemma seg1_shape: "list_all (\<lambda>t. length t = 6) deltas \<Longrightarrow> list_all shape1 (seg1 deltas i)"
proof (induction deltas i rule: seg1.induct)
  case (1 deltas i)
  show ?case
  proof (cases "i < length deltas")
    case False
    then show ?thesis by (simp add: seg1.simps [of deltas i])
  next
    case True
    obtain r j where s: "scan_run deltas (deltas ! i) 1 (i + 1) = (r, j)" by (cases "scan_run deltas (deltas ! i) 1 (i + 1)")
    note f = scan_run_first [OF s True]
    have ih: "list_all shape1 (seg1 deltas j)" by (rule "1.IH" [OF True s [symmetric] "1.prems"])
    have l: "length (deltas ! i) = 6" using "1.prems" True by (simp add: list_all_length)
    have "list_all shape1 (if 3 \<le> r then [(r, deltas ! i)] else replicate r (1, deltas ! i))"
      using f l by (simp add: shape1_def list_all_iff)
    then show ?thesis using True s ih by (simp add: seg1.simps [of deltas i])
  qed
qed

lemma wire_append: "wire (xs @ ys) = wire xs @ wire ys"
  by (simp add: wire_def)

lemma wire_Cons: "wire (b # bs) = wire_blk b @ wire bs"
  by (simp add: wire_def)

lemma wire_Nil: "wire [] = []"
  by (simp add: wire_def)

lemma wire_replicate1: "wire (replicate r (Suc 0, t)) = concat (replicate r (1 # wints t))"
  by (induction r) (simp_all add: wire_def wire_blk.simps)

lemma emit_block_wire:
  "emit_block r t = Some (wire (if 3 \<le> r then [(r, t)] else replicate r (1, t)))"
  by (simp add: emit_block_def varint_encode_nonneg write_ints_wints wire_replicate1 wire_def wire_blk.simps)

lemma encode_blocks_wire: "encode_blocks deltas i = Some (wire (seg1 deltas i))"
proof (induction deltas i rule: seg1.induct)
  case (1 deltas i)
  show ?case
  proof (cases "i < length deltas")
    case False
    then show ?thesis by (simp add: seg1.simps [of deltas i] encode_blocks.simps [of deltas i] wire_def)
  next
    case True
    obtain r j where s: "scan_run deltas (deltas ! i) 1 (i + 1) = (r, j)" by (cases "scan_run deltas (deltas ! i) 1 (i + 1)")
    have ih: "encode_blocks deltas j = Some (wire (seg1 deltas j))" by (rule "1.IH" [OF True s [symmetric]])
    show ?thesis using True s ih
      by (simp add: seg1.simps [of deltas i] encode_blocks.simps [of deltas i] emit_block_wire wire_append)
  qed
qed

lemma deltas1_length6: "list_all (\<lambda>t. length t = 6) (deltas1 prev bs)"
  by (induction bs arbitrary: prev) (simp_all add: bar_sub_def)

lemma length_deltas1: "length (deltas1 prev bs) = length bs"
  by (induction bs arbitrary: prev) simp_all

text \<open>What \<open>encode_star\<close> returns, and when.\<close>

lemma encode_star_Nil: "encode_star [] ps = Some (STAR1 @ [0])"
  by (simp add: encode_star_def varint_encode_nonneg venc.simps [of 0])

lemma encode_star_Cons:
  "encode_star (b0 # rest) ps =
     (if ps < 0 then None
      else Some (STAR1 @ venc (Suc (length rest)) @ venc (nat ps) @ wints (bar_vals b0)
                 @ wire (seg1 (deltas1 b0 rest) 0)))"
  using varint_encode_nonneg [of "int (Suc (length rest))"]
  by (simp add: encode_star_def varint_encode_nonneg varint_encode_neg write_ints_wints
      encode_blocks_wire del: of_nat_Suc)

section \<open>Case-01: decoding an encoded blob\<close>

text \<open>
  \<open>rows_from cur ds\<close> lists the rows reached from \<open>cur\<close> by adding the delta tuples
  \<open>ds\<close> one after the other; \<open>dexp bs\<close> lists the delta tuples a decoder reads from the
  blocks \<open>bs\<close> (reasoning devices).
\<close>

fun rows_from :: "Bar \<Rightarrow> int list list \<Rightarrow> Bar list" where
  "rows_from cur [] = []"
| "rows_from cur (d # ds) = bar_add cur d # rows_from (bar_add cur d) ds"

definition dexp :: "(nat \<times> int list) list \<Rightarrow> int list list" where
  "dexp bs = map (map dz) (expand bs)"

lemma rows_from_append:
  "rows_from c (xs @ ys) = rows_from c xs @ rows_from (foldl bar_add c xs) ys"
  by (induction xs arbitrary: c) simp_all

lemma length_rows_from: "length (rows_from c xs) = length xs"
  by (induction xs arbitrary: c) simp_all

lemma last_rows_from: "last (c # rows_from c xs) = foldl bar_add c xs"
  by (induction xs arbitrary: c) simp_all

lemma last_append_rows_from:
  "bars \<noteq> [] \<Longrightarrow> last (bars @ rows_from (last bars) xs) = foldl bar_add (last bars) xs"
  using last_rows_from [of "last bars" xs] by (cases "rows_from (last bars) xs") auto

lemma apply_run_rows:
  "bars \<noteq> [] \<Longrightarrow> apply_run r t bars = bars @ rows_from (last bars) (replicate r t)"
proof (induction r arbitrary: bars)
  case 0
  then show ?case by simp
next
  case (Suc r)
  have "apply_run (Suc r) t bars = apply_run r t (bars @ [bar_add (last bars) t])" by simp
  also have "\<dots> = (bars @ [bar_add (last bars) t]) @ rows_from (bar_add (last bars) t) (replicate r t)"
    using Suc.IH [of "bars @ [bar_add (last bars) t]"] by simp
  finally show ?case by simp
qed

lemma dexp_Cons: "dexp ((r, t) # bs) = replicate r (map dz t) @ dexp bs"
  by (simp add: dexp_def expand_def)

lemma dexp_Nil: "dexp [] = []"
  by (simp add: dexp_def expand_def)

lemma dexp_append: "dexp (xs @ ys) = dexp xs @ dexp ys"
  by (simp add: dexp_def expand_def)

lemma length_dexp: "length (dexp bs) = length (expand bs)"
  by (simp add: dexp_def)

lemma expand_Cons: "expand ((r, t) # bs) = replicate r t @ expand bs"
  by (simp add: expand_def)

subsection \<open>Reading one varint, one row, one block at a known place\<close>

lemma varint_at:
  assumes "buf = pre @ venc n @ rest" "i = length pre"
  shows "varint_loop lim buf i 0 0
     = (if fits lim n then Inr (int n, i + length (venc n)) else Inl Overlong)"
  using varint_loop_venc_full [of lim pre n rest] assms by simp

lemma read_ints_at:
  assumes "buf = pre @ wints t @ rest" "i = length pre" "k = length t"
  shows "read_ints lim k buf i
     = (if fits_all lim t then Inr (map dz t, i + length (wints t)) else Inl Overlong)"
  using read_ints_wints [of lim t pre rest] assms by simp

lemma fits_run: "r \<le> 10000000 \<Longrightarrow> fits 63 r"
  by (rule fits63) simp

lemma wire_blk_nonempty: "wire_blk b \<noteq> []"
  by (cases b) (simp add: wire_blk.simps)

lemma decode_block_at:
  assumes buf: "buf = pre @ wire_blk b @ rest" and i: "i = length pre" and sh: "shape1 b"
  shows "decode_block buf i
     = (if fits_all 63 (snd b) then Inr (map dz (snd b), int (fst b), i + length (wire_blk b))
        else Inl Overlong)"
proof -
  obtain r t where b: "b = (r, t)" by (cases b)
  have len: "length t = 6" and r: "r = 1 \<or> 3 \<le> r" "r \<le> 10000000"
    using sh by (auto simp: shape1_def b)
  have lt: "i < length buf" using buf i wire_blk_nonempty [of b] by (cases "wire_blk b") auto
  show ?thesis
  proof (cases "3 \<le> r")
    case True
    have tag: "buf ! i = 0" using buf i True by (simp add: b nth_append wire_blk.simps)
    have b1: "buf = (pre @ [0]) @ venc r @ (wints t @ rest)" using buf True by (simp add: b wire_blk.simps)
    have v: "varint_decode buf (i + 1) = Inr (int r, i + 1 + length (venc r))"
      unfolding varint_decode_def
      using varint_at [OF b1, of "i + 1" 63] i fits_run [OF r(2)] by simp
    have b2: "buf = (pre @ [0] @ venc r) @ wints t @ rest" using buf True by (simp add: b wire_blk.simps)
    have rd: "read_ints 63 6 buf (i + 1 + length (venc r))
       = (if fits_all 63 t then Inr (map dz t, i + 1 + length (venc r) + length (wints t)) else Inl Overlong)"
      using read_ints_at [OF b2, of "i + 1 + length (venc r)" 6 63] i len by simp
    show ?thesis using lt tag v rd True by (simp add: decode_block_def b wire_blk.simps)
  next
    case False
    then have r1: "r = 1" using r by simp
    have tag: "buf ! i = 1" using buf i False by (simp add: b nth_append wire_blk.simps)
    have b2: "buf = (pre @ [1]) @ wints t @ rest" using buf False by (simp add: b wire_blk.simps)
    have rd: "read_ints 63 6 buf (i + 1)
       = (if fits_all 63 t then Inr (map dz t, i + 1 + length (wints t)) else Inl Overlong)"
      using read_ints_at [OF b2, of "i + 1" 6 63] i len by simp
    show ?thesis using lt tag rd False r1 by (simp add: decode_block_def b wire_blk.simps)
  qed
qed

subsection \<open>The decoding loop\<close>

lemma decode_loop_unfold:
  "decode_loop buf n bars i =
     (if \<not> int (length bars) < n then Inr bars
      else
        (case decode_block buf i of
           Inl e \<Rightarrow> Inl e
         | Inr (tup, run, i2) \<Rightarrow> decode_loop buf n (apply_run (nat run) tup bars) i2))"
  by (subst decode_loop.simps)
     (auto simp: decode_block_def Let_def split: sum.splits)

definition fits_blocks :: "nat \<Rightarrow> (nat \<times> int list) list \<Rightarrow> bool" where
  "fits_blocks lim bs \<longleftrightarrow> list_all (\<lambda>b. fits_all lim (snd b)) bs"

lemma decode_loop_wire:
  assumes "list_all shape1 bs" "bars \<noteq> []" "n = int (length bars + length (expand bs))"
  shows "decode_loop (pre @ wire bs @ rest) n bars (length pre)
     = (if fits_blocks 63 bs then Inr (bars @ rows_from (last bars) (dexp bs)) else Inl Overlong)"
  using assms
proof (induction bs arbitrary: pre bars)
  case Nil
  then show ?case
    by (subst decode_loop_unfold) (simp add: expand_def dexp_Nil fits_blocks_def)
next
  case (Cons b bs)
  obtain r t where b: "b = (r, t)" by (cases b)
  have sh: "shape1 b" and shs: "list_all shape1 bs" using Cons.prems(1) by simp_all
  have r: "1 \<le> r" using sh by (auto simp: shape1_def b)
  have lt: "int (length bars) < n" using Cons.prems(3) r by (simp add: b expand_Cons)
  let ?buf = "pre @ wire (b # bs) @ rest"
  have buf: "?buf = pre @ wire_blk b @ (wire bs @ rest)" by (simp add: wire_Cons)
  note db = decode_block_at [OF buf refl sh]
  show ?case
  proof (cases "fits_all 63 t")
    case False
    then show ?thesis using lt db
      by (subst decode_loop_unfold) (simp add: b fits_blocks_def)
  next
    case True
    let ?bars = "bars @ rows_from (last bars) (replicate r (map dz t))"
    have buf': "?buf = (pre @ wire_blk b) @ wire bs @ rest" by (simp add: wire_Cons)
    have n': "n = int (length ?bars + length (expand bs))"
      using Cons.prems(3) by (simp add: b expand_Cons length_rows_from)
    have ne: "?bars \<noteq> []" using Cons.prems(2) by simp
    have ih: "decode_loop ?buf n ?bars (length (pre @ wire_blk b))
       = (if fits_blocks 63 bs then Inr (?bars @ rows_from (last ?bars) (dexp bs)) else Inl Overlong)"
      unfolding buf' by (rule Cons.IH [OF shs ne n'])
    have step: "decode_loop ?buf n bars (length pre) = decode_loop ?buf n ?bars (length (pre @ wire_blk b))"
      using lt db True Cons.prems(2)
      by (subst decode_loop_unfold) (simp add: b apply_run_rows)
    have l: "last ?bars = foldl bar_add (last bars) (replicate r (map dz t))"
      by (rule last_append_rows_from [OF Cons.prems(2)])
    have rows: "?bars @ rows_from (last ?bars) (dexp bs) = bars @ rows_from (last bars) (dexp (b # bs))"
      unfolding l by (simp add: b dexp_Cons rows_from_append)
    show ?thesis unfolding step ih rows using True by (simp add: fits_blocks_def b)
  qed
qed

subsection \<open>The header\<close>

lemma length_STAR1 [simp]: "length STAR1 = 5"
  by (simp add: STAR1_def)

lemma take5_STAR1: "take 5 (STAR1 @ xs) = STAR1"
  by simp

lemma parse_star1_header_at:
  assumes "buf = STAR1 @ venc n @ venc ps @ wints base @ body" "0 < n" "length base = 6"
  shows "parse_star1_header buf =
     (if fits 63 n \<and> fits 63 ps \<and> fits_all 63 base
      then Inr (int n, int ps, mk_bar (map dz base),
                5 + length (venc n) + length (venc ps) + length (wints base))
      else Inl Overlong)"
proof -
  have m: "take 5 buf = STAR1" using assms(1) by (simp add: take5_STAR1)
  have b1: "buf = STAR1 @ venc n @ (venc ps @ wints base @ body)" using assms(1) by simp
  have v1: "varint_decode buf 5 = (if fits 63 n then Inr (int n, 5 + length (venc n)) else Inl Overlong)"
    unfolding varint_decode_def by (rule varint_at [OF b1]) simp
  have b2: "buf = (STAR1 @ venc n) @ venc ps @ (wints base @ body)" using assms(1) by simp
  have v2: "varint_decode buf (5 + length (venc n))
      = (if fits 63 ps then Inr (int ps, 5 + length (venc n) + length (venc ps)) else Inl Overlong)"
    unfolding varint_decode_def by (rule varint_at [OF b2]) simp
  have b3: "buf = (STAR1 @ venc n @ venc ps) @ wints base @ body" using assms(1) by simp
  have v3: "read_ints 63 6 buf (5 + length (venc n) + length (venc ps))
      = (if fits_all 63 base
         then Inr (map dz base, 5 + length (venc n) + length (venc ps) + length (wints base))
         else Inl Overlong)"
    by (rule read_ints_at [OF b3]) (simp_all add: assms(3))
  show ?thesis using m v1 v2 v3 assms(2) by (simp add: parse_star1_header_def)
qed

lemma decode_star_parse:
  "decode_star buf =
     (case parse_star1_header buf of
        Inl e \<Rightarrow> Inl e
      | Inr (n, ps, base, i) \<Rightarrow> if n = 0 then Inr [] else decode_loop buf n [base] i)"
  by (auto simp: decode_star_def parse_star1_header_def split: sum.splits)

text \<open>The condition under which every varint of a blob is short enough to be read back.\<close>

definition fits_star1 :: "Bar list \<Rightarrow> int \<Rightarrow> bool" where
  "fits_star1 bars ps \<longleftrightarrow>
     (case bars of
        [] \<Rightarrow> True
      | b0 # rest \<Rightarrow> fits 63 (length bars) \<and> fits 63 (nat ps) \<and> fits_all 63 (bar_vals b0)
                     \<and> fits_blocks 63 (seg1 (deltas1 b0 rest) 0))"

lemma length_bar_vals: "length (bar_vals b) = 6"
  by (simp add: bar_vals_def)

lemma decode_star_Nil: "decode_star (STAR1 @ [0]) = Inr []"
proof -
  have "varint_decode (STAR1 @ [0]) 5 = Inr (0, 6)"
    by (simp add: varint_decode_def varint_loop.simps [of 63 _ 5] nth_append)
  then show ?thesis by (simp add: decode_star_def take5_STAR1)
qed

lemma decode_star_encode_Cons:
  assumes "encode_star (b0 # rest) ps = Some buf"
  shows "decode_star buf =
     (if fits_star1 (b0 # rest) ps
      then Inr (mk_bar (map dz (bar_vals b0))
                # rows_from (mk_bar (map dz (bar_vals b0))) (dexp (seg1 (deltas1 b0 rest) 0)))
      else Inl Overlong)"
proof -
  let ?bs = "seg1 (deltas1 b0 rest) 0"
  let ?n = "Suc (length rest)"
  have ps: "0 \<le> ps" and buf: "buf = STAR1 @ venc ?n @ venc (nat ps) @ wints (bar_vals b0) @ wire ?bs"
    using assms by (auto simp: encode_star_Cons split: if_splits)
  note hd = parse_star1_header_at [OF buf _ length_bar_vals, simplified]
  show ?thesis
  proof (cases "fits 63 ?n \<and> fits 63 (nat ps) \<and> fits_all 63 (bar_vals b0)")
    case False
    then show ?thesis using hd by (auto simp: decode_star_parse fits_star1_def)
  next
    case True
    let ?pre = "STAR1 @ venc ?n @ venc (nat ps) @ wints (bar_vals b0)"
    let ?b0 = "mk_bar (map dz (bar_vals b0))"
    have sh: "list_all shape1 ?bs" by (rule seg1_shape [OF deltas1_length6])
    have ex: "length (expand ?bs) = length rest" by (simp add: seg1_expand length_deltas1)
    have n: "int ?n = int (length [?b0] + length (expand ?bs))" by (simp add: ex)
    have "decode_loop (?pre @ wire ?bs @ []) (int ?n) [?b0] (length ?pre)
        = (if fits_blocks 63 ?bs then Inr ([?b0] @ rows_from (last [?b0]) (dexp ?bs)) else Inl Overlong)"
      by (rule decode_loop_wire [OF sh _ n]) simp
    moreover have "length ?pre = 5 + length (venc ?n) + length (venc (nat ps)) + length (wints (bar_vals b0))"
      by simp
    ultimately show ?thesis using hd True ps
      by (simp add: decode_star_parse fits_star1_def buf add.assoc del: of_nat_Suc)
  qed
qed

section \<open>Case-01: the round trip\<close>

definition i64 :: "int \<Rightarrow> bool" where
  "i64 x \<longleftrightarrow> - (2 ^ 63) \<le> x \<and> x < 2 ^ 63"

text \<open>
  The values Case-01 writes for a list of bars: the base row's fields and the fields of
  every delta tuple between successive rows.
\<close>

definition written1 :: "Bar list \<Rightarrow> int list list" where
  "written1 bars = (case bars of [] \<Rightarrow> [] | b0 # rest \<Rightarrow> bar_vals b0 # deltas1 b0 rest)"

lemma i64_dz: "list_all i64 t \<Longrightarrow> map dz t = t"
  by (induction t) (simp_all add: i64_def dz_id)

lemma i64_fits_all: "63 \<le> lim \<Longrightarrow> list_all i64 t \<Longrightarrow> fits_all lim t"
  by (induction t) (simp_all add: i64_def fits_all_def fits_i64)

lemma i64_dz_all: "list_all (list_all i64) ds \<Longrightarrow> map (map dz) ds = ds"
  by (induction ds) (simp_all add: i64_dz)

lemma block_mem_expand:
  assumes "b \<in> set bs" "1 \<le> fst b"
  shows "snd b \<in> set (expand bs)"
proof -
  obtain r t where b: "b = (r, t)" by (cases b)
  have "t \<in> set (replicate r t)" using assms(2) by (simp add: b)
  then show ?thesis using assms(1) unfolding expand_def b by (auto intro!: bexI [of _ "(r, t)"])
qed

lemma fits_blocks_expand:
  assumes "list_all (\<lambda>b. 1 \<le> fst b) bs" "list_all (fits_all lim) (expand bs)"
  shows "fits_blocks lim bs"
  unfolding fits_blocks_def list_all_iff
proof
  fix b assume b: "b \<in> set bs"
  then have "1 \<le> fst b" using assms(1) by (simp add: list_all_iff)
  then have "snd b \<in> set (expand bs)" using b by (intro block_mem_expand)
  then show "fits_all lim (snd b)" using assms(2) by (simp add: list_all_iff)
qed

lemma shape1_pos: "list_all shape1 bs \<Longrightarrow> list_all (\<lambda>b. 1 \<le> fst b) bs"
  by (auto simp: list_all_iff shape1_def)

lemma fits_blocks_seg1:
  assumes "list_all (list_all i64) (deltas1 b0 rest)"
  shows "fits_blocks 63 (seg1 (deltas1 b0 rest) 0)"
proof (rule fits_blocks_expand)
  show "list_all (\<lambda>b. 1 \<le> fst b) (seg1 (deltas1 b0 rest) 0)"
    by (rule shape1_pos [OF seg1_shape [OF deltas1_length6]])
  show "list_all (fits_all 63) (expand (seg1 (deltas1 b0 rest) 0))"
    using assms by (simp add: seg1_expand list_all_iff i64_fits_all)
qed

lemma bar_add_sub: "bar_add prev (bar_sub b prev) = b"
  by (simp add: bar_add_def bar_sub_def)

lemma rows_from_deltas1: "rows_from prev (deltas1 prev bs) = bs"
  by (induction bs arbitrary: prev) (simp_all add: bar_add_sub)

lemma mk_bar_vals: "mk_bar (bar_vals b) = b"
  by (simp add: mk_bar_def bar_vals_def)

lemma roundtrip1:
  assumes "length bars < 2 ^ 70" "0 \<le> ps" "ps < 2 ^ 70" "list_all (list_all i64) (written1 bars)"
  shows "\<exists>buf. encode_star bars ps = Some buf \<and> decode_star buf = Inr bars"
proof (cases bars)
  case Nil
  then show ?thesis by (simp add: encode_star_Nil decode_star_Nil)
next
  case (Cons b0 rest)
  let ?bs = "seg1 (deltas1 b0 rest) 0"
  have w: "list_all i64 (bar_vals b0)" "list_all (list_all i64) (deltas1 b0 rest)"
    using assms(4) by (simp_all add: written1_def Cons)
  obtain buf where e: "encode_star (b0 # rest) ps = Some buf"
    using assms(2) by (simp add: encode_star_Cons)
  have f: "fits_star1 (b0 # rest) ps"
    using assms(1,2,3) w fits_blocks_seg1 [OF w(2)]
    by (simp add: fits_star1_def Cons fits63 i64_fits_all nat_less_iff)
  have d: "dexp ?bs = deltas1 b0 rest" by (simp add: dexp_def seg1_expand i64_dz_all [OF w(2)])
  have "decode_star buf = Inr (b0 # rest)"
    using decode_star_encode_Cons [OF e] f
    by (simp add: d i64_dz [OF w(1)] mk_bar_vals rows_from_deltas1)
  then show ?thesis using e Cons by simp
qed

section \<open>Case-01: the index builder on an encoded blob\<close>

lemma index_run_full:
  "int (row + r) < n \<Longrightarrow> index_run r t n cur row = (foldl bar_add cur (replicate r t), row + r)"
  by (induction r arbitrary: cur row) (simp_all add: Let_def)

text \<open>
  The state of a block-by-block walk that started at \<open>(row, pos, cur)\<close> after \<open>k\<close> of the
  blocks \<open>bs\<close> (a reasoning device).
\<close>

definition boundary :: "nat \<Rightarrow> nat \<Rightarrow> Bar \<Rightarrow> (nat \<times> int list) list \<Rightarrow> nat \<Rightarrow> anchor" where
  "boundary row pos cur bs k =
     (row + length (expand (take k bs)), pos + length (wire (take k bs)),
      foldl bar_add cur (dexp (take k bs)))"

lemma boundary_Cons_Suc:
  "boundary row pos cur ((r, t) # bs) (Suc k)
     = boundary (row + r) (pos + length (wire_blk (r, t))) (foldl bar_add cur (replicate r (map dz t))) bs k"
  by (simp add: boundary_def expand_Cons wire_Cons dexp_Cons)

lemma boundary_0: "boundary row pos cur bs 0 = (row, pos, cur)"
  by (simp add: boundary_def expand_def wire_def dexp_Nil)

lemma index_loop_wire:
  assumes "list_all shape1 bs" "int (row + length (expand bs)) = n - 1" "ae \<noteq> 0"
    "fits_blocks 63 bs"
  shows "\<exists>new. index_loop (pre @ wire bs) n ae anchors row (length pre) cur
            = Inr (anchors @ new, row + length (expand bs), length pre + length (wire bs),
                   foldl bar_add cur (dexp bs))
          \<and> (\<forall>a \<in> set new. \<exists>k < length bs. a = boundary row (length pre) cur bs k)"
  using assms
proof (induction bs arbitrary: pre anchors row cur)
  case Nil
  then show ?case
    by (subst index_loop.simps) (simp add: expand_def wire_def dexp_Nil)
next
  case (Cons b bs)
  obtain r t where b: "b = (r, t)" by (cases b)
  have sh: "shape1 b" and shs: "list_all shape1 bs" using Cons.prems(1) by simp_all
  have r: "1 \<le> r" using sh by (auto simp: shape1_def b)
  have ft: "fits_all 63 t" and fbs: "fits_blocks 63 bs"
    using Cons.prems(4) by (simp_all add: fits_blocks_def b)
  have lt: "int row < n - 1" using Cons.prems(2) r by (simp add: b expand_Cons)
  let ?buf = "pre @ wire (b # bs)"
  let ?pos2 = "length pre + length (wire_blk b)"
  let ?cur = "foldl bar_add cur (replicate r (map dz t))"
  have buf: "?buf = pre @ wire_blk b @ wire bs" by (simp add: wire_Cons)
  have db: "decode_block ?buf (length pre) = Inr (map dz t, int r, ?pos2)"
    using decode_block_at [OF buf refl sh] ft by (simp add: b)
  have ir: "index_run r (map dz t) n cur row = (?cur, row + r)"
    by (rule index_run_full) (use Cons.prems(2) in \<open>simp add: b expand_Cons\<close>)
  define anchors' where "anchors' =
      (if int row mod ae = 0 \<and> \<not> (row = 0 \<and> anchors \<noteq> [] \<and> fst (last anchors) = 0)
       then anchors @ [(row, length pre, cur)] else anchors)"
  obtain new0 where a0: "anchors' = anchors @ new0" and n0: "set new0 \<subseteq> {(row, length pre, cur)}"
    by (cases "int row mod ae = 0 \<and> \<not> (row = 0 \<and> anchors \<noteq> [] \<and> fst (last anchors) = 0)")
       (auto simp: anchors'_def)
  have le: "\<not> ?pos2 > length ?buf" by (simp add: wire_Cons)
  have step: "index_loop ?buf n ae anchors row (length pre) cur
      = index_loop ?buf n ae anchors' (row + r) ?pos2 ?cur"
    using lt Cons.prems(3) db ir le
    by (subst index_loop.simps) (simp add: anchors'_def Let_def)
  have buf': "?buf = (pre @ wire_blk b) @ wire bs" by (simp add: wire_Cons)
  have n': "int (row + r + length (expand bs)) = n - 1"
    using Cons.prems(2) by (simp add: b expand_Cons)
  from Cons.IH [OF shs n' Cons.prems(3) fbs, of "pre @ wire_blk b" anchors' ?cur]
  obtain new where
    ih: "index_loop ?buf n ae anchors' (row + r) ?pos2 ?cur
          = Inr (anchors' @ new, row + r + length (expand bs), ?pos2 + length (wire bs),
                 foldl bar_add ?cur (dexp bs))"
    and nw: "\<forall>a \<in> set new. \<exists>k < length bs. a = boundary (row + r) ?pos2 ?cur bs k"
    unfolding buf' by auto
  have res: "index_loop ?buf n ae anchors row (length pre) cur
      = Inr (anchors @ (new0 @ new), row + length (expand (b # bs)),
             length pre + length (wire (b # bs)), foldl bar_add cur (dexp (b # bs)))"
    unfolding step ih by (simp add: a0 b expand_Cons wire_Cons dexp_Cons)
  have "\<exists>k < length (b # bs). a = boundary row (length pre) cur (b # bs) k" if h: "a \<in> set (new0 @ new)" for a
  proof (cases "a \<in> set new0")
    case True
    then have "a = boundary row (length pre) cur (b # bs) 0" using n0 by (auto simp: boundary_0)
    then show ?thesis by blast
  next
    case False
    then obtain k where "k < length bs" "a = boundary (row + r) ?pos2 ?cur bs k" using h nw by auto
    then have "a = boundary row (length pre) cur (b # bs) (Suc k)"
      by (simp add: b boundary_Cons_Suc)
    then show ?thesis using \<open>k < length bs\<close> by auto
  qed
  then show ?case using res by blast
qed

lemma index_loop_overlong:
  assumes "list_all shape1 bs" "int (row + length (expand bs)) = n - 1" "ae \<noteq> 0"
    "\<not> fits_blocks 63 bs"
  shows "index_loop (pre @ wire bs) n ae anchors row (length pre) cur = Inl Overlong"
  using assms
proof (induction bs arbitrary: pre anchors row cur)
  case Nil
  then show ?case by (simp add: fits_blocks_def)
next
  case (Cons b bs)
  obtain r t where b: "b = (r, t)" by (cases b)
  have sh: "shape1 b" and shs: "list_all shape1 bs" using Cons.prems(1) by simp_all
  have r: "1 \<le> r" using sh by (auto simp: shape1_def b)
  have lt: "int row < n - 1" using Cons.prems(2) r by (simp add: b expand_Cons)
  let ?buf = "pre @ wire (b # bs)"
  let ?pos2 = "length pre + length (wire_blk b)"
  let ?cur = "foldl bar_add cur (replicate r (map dz t))"
  have buf: "?buf = pre @ wire_blk b @ wire bs" by (simp add: wire_Cons)
  note db = decode_block_at [OF buf refl sh]
  show ?case
  proof (cases "fits_all 63 t")
    case False
    then show ?thesis using lt Cons.prems(3) db
      by (subst index_loop.simps) (simp add: Let_def b)
  next
    case True
    then have fbs: "\<not> fits_blocks 63 bs" using Cons.prems(4) by (simp add: fits_blocks_def b)
    have ir: "index_run r (map dz t) n cur row = (?cur, row + r)"
      by (rule index_run_full) (use Cons.prems(2) in \<open>simp add: b expand_Cons\<close>)
    have le: "\<not> ?pos2 > length ?buf" by (simp add: wire_Cons)
    have buf': "?buf = (pre @ wire_blk b) @ wire bs" by (simp add: wire_Cons)
    have n': "int (row + r + length (expand bs)) = n - 1"
      using Cons.prems(2) by (simp add: b expand_Cons)
    have ih: "index_loop ?buf n ae anchors' (row + r) ?pos2 ?cur = Inl Overlong" for anchors'
      unfolding buf' using Cons.IH [OF shs n' Cons.prems(3) fbs, of "pre @ wire_blk b" anchors' ?cur]
      by simp
    have db': "decode_block ?buf (length pre) = Inr (map dz t, int r, ?pos2)"
      using db True by (simp add: b)
    show ?thesis using lt Cons.prems(3) db' ir le
      by (subst index_loop.simps) (simp add: Let_def ih)
  qed
qed

section \<open>Case-01: the anchors of an encoded blob\<close>

text \<open>
  The positions at which a block begins or the body ends: the start of the body, and
  every position \<open>decode_block\<close> returns when it reads a block at such a position.
\<close>

inductive block_start1 :: "byte list \<Rightarrow> nat \<Rightarrow> bool" for buf where
  body_start1: "parse_star1_header buf = Inr (n, price_scale, base, body_i) \<Longrightarrow> block_start1 buf body_i"
| block_end1: "block_start1 buf p \<Longrightarrow> decode_block buf p = Inr (tup, run, p') \<Longrightarrow> block_start1 buf p'"

lemma wire_split:
  assumes "k < length bs"
  shows "wire bs = wire (take k bs) @ wire_blk (bs ! k) @ wire (drop (Suc k) bs)"
proof -
  have "wire bs = wire (take k bs @ bs ! k # drop (Suc k) bs)"
    by (rule arg_cong [where f = wire, OF id_take_nth_drop [OF assms]])
  then show ?thesis by (simp only: wire_append wire_Cons)
qed

lemma expand_split:
  assumes "k < length bs"
  shows "expand bs = expand (take k bs) @ expand (bs ! k # drop (Suc k) bs)"
proof -
  have "expand bs = expand (take k bs @ bs ! k # drop (Suc k) bs)"
    by (rule arg_cong [where f = expand, OF id_take_nth_drop [OF assms]])
  then show ?thesis by (simp only: expand_append)
qed

lemma block_start1_wire:
  assumes "block_start1 buf (length pre)" "buf = pre @ wire bs @ rest"
    "list_all shape1 bs" "fits_blocks 63 bs" "k \<le> length bs"
  shows "block_start1 buf (length pre + length (wire (take k bs)))"
  using assms(5)
proof (induction k)
  case 0
  then show ?case using assms(1) by (simp add: wire_Nil)
next
  case (Suc k)
  then have k: "k < length bs" by simp
  let ?b = "bs ! k"
  have sh: "shape1 ?b" and ft: "fits_all 63 (snd ?b)"
    using assms(3,4) k by (simp_all add: list_all_length fits_blocks_def)
  have tk: "take (Suc k) bs = take k bs @ [?b]" using k by (simp add: take_Suc_conv_app_nth)
  have buf: "buf = (pre @ wire (take k bs)) @ wire_blk ?b @ (wire (drop (Suc k) bs) @ rest)"
    unfolding assms(2) wire_split [OF k] by simp
  have db: "decode_block buf (length (pre @ wire (take k bs)))
      = Inr (map dz (snd ?b), int (fst ?b), length (pre @ wire (take k bs)) + length (wire_blk ?b))"
    using decode_block_at [OF buf refl sh] ft by simp
  have st: "block_start1 buf (length (pre @ wire (take k bs)))" using Suc.IH k by simp
  have "block_start1 buf (length (pre @ wire (take k bs)) + length (wire_blk ?b))"
    by (rule block_end1 [OF st db])
  then show ?case by (simp add: tk wire_append wire_Cons wire_Nil add.assoc)
qed

lemma wire_blk_tag: "wire_blk b ! 0 = 0 \<or> wire_blk b ! 0 = 1"
  by (cases b) (simp add: wire_blk.simps)

lemma wire_take_tag:
  assumes "k < length bs" "buf = pre @ wire bs @ rest"
  shows "length pre + length (wire (take k bs)) < length buf
       \<and> (buf ! (length pre + length (wire (take k bs))) = 0
          \<or> buf ! (length pre + length (wire (take k bs))) = 1)"
proof -
  let ?b = "bs ! k"
  have buf: "buf = (pre @ wire (take k bs)) @ wire_blk ?b @ (wire (drop (Suc k) bs) @ rest)"
    unfolding assms(2) wire_split [OF assms(1)] by simp
  obtain x w where w: "wire_blk ?b = x # w" using wire_blk_nonempty [of ?b] by (cases "wire_blk ?b") auto
  have x: "x = 0 \<or> x = 1" using wire_blk_tag [of ?b] by (simp add: w)
  have "buf ! (length (pre @ wire (take k bs))) = x"
    unfolding buf w by (simp only: append_Cons nth_append_length)
  moreover have "length (pre @ wire (take k bs)) < length buf"
    unfolding buf w by simp
  ultimately show ?thesis using x by simp
qed

lemma expand_take_less:
  assumes "list_all (\<lambda>b. 1 \<le> fst b) bs" "k < length bs"
  shows "length (expand (take k bs)) < length (expand bs)"
proof -
  have "1 \<le> fst (bs ! k)" using assms by (simp add: list_all_length)
  then show ?thesis unfolding expand_split [OF assms(2)] by (cases "bs ! k") (simp add: expand_Cons)
qed

text \<open>What \<open>build_index\<close> returns on an encoded blob of at least one bar.\<close>

lemma build_index_encode_Cons:
  assumes e: "encode_star (b0 # rest) ps = Some buf" and ae: "ae \<noteq> 0"
  defines "bs \<equiv> seg1 (deltas1 b0 rest) 0"
  defines "body \<equiv> length buf - length (wire bs)"
  defines "base \<equiv> mk_bar (map dz (bar_vals b0))"
  shows "if fits_star1 (b0 # rest) ps
         then \<exists>anchors. build_index buf ae = Inr (int (Suc (length rest)), anchors)
                \<and> (\<forall>a \<in> set anchors. \<exists>k \<le> length bs. a = boundary 0 body base bs k)
         else build_index buf ae = Inl Overlong"
proof -
  let ?n = "Suc (length rest)"
  let ?pre = "STAR1 @ venc ?n @ venc (nat ps) @ wints (bar_vals b0)"
  have ps: "0 \<le> ps" and buf: "buf = ?pre @ wire bs"
    using e by (auto simp: encode_star_Cons bs_def split: if_splits)
  have body: "body = length ?pre" by (simp add: body_def buf)
  have buf0: "buf = STAR1 @ venc ?n @ venc (nat ps) @ wints (bar_vals b0) @ wire bs"
    using buf by simp
  note hd = parse_star1_header_at [OF buf0 _ length_bar_vals, simplified]
  have sh: "list_all shape1 bs" unfolding bs_def by (rule seg1_shape [OF deltas1_length6])
  have ex: "length (expand bs) = length rest" by (simp add: bs_def seg1_expand length_deltas1)
  have n: "int (0 + length (expand bs)) = int ?n - 1" by (simp add: ex)
  show ?thesis
  proof (cases "fits 63 ?n \<and> fits 63 (nat ps) \<and> fits_all 63 (bar_vals b0)")
    case False
    then show ?thesis using hd by (auto simp: build_index_def fits_star1_def)
  next
    case True
    then have p: "parse_star1_header buf = Inr (int ?n, ps, base, body)"
      using hd ps by (simp add: base_def body add.assoc)
    show ?thesis
    proof (cases "fits_blocks 63 bs")
      case False
      have "index_loop (?pre @ wire bs) (int ?n) ae [(0, body, base)] 0 (length ?pre) base = Inl Overlong"
        by (rule index_loop_overlong [OF sh n ae False])
      then show ?thesis using p False True
        by (simp add: build_index_def fits_star1_def bs_def buf body del: of_nat_Suc)
    next
      case fb: True
      from index_loop_wire [OF sh n ae fb, of ?pre "[(0, body, base)]" base]
      obtain new where
        il: "index_loop buf (int ?n) ae [(0, body, base)] 0 body base
              = Inr ([(0, body, base)] @ new, length (expand bs), body + length (wire bs),
                     foldl bar_add base (dexp bs))"
        and nw: "\<forall>a \<in> set new. \<exists>k < length bs. a = boundary 0 body base bs k"
        unfolding buf body by auto
      let ?last = "(length (expand bs), body + length (wire bs), foldl bar_add base (dexp bs))"
      have lastb: "?last = boundary 0 body base bs (length bs)" by (simp add: boundary_def)
      have first: "(0, body, base) = boundary 0 body base bs 0" by (simp add: boundary_0)
      obtain anchors where
        bi: "build_index buf ae = Inr (int ?n, anchors)"
        and sub: "set anchors \<subseteq> insert (0, body, base) (insert ?last (set new))"
        using p il by (cases "fst (last ([(0, body, base)] @ new)) \<noteq> length (expand bs)")
          (auto simp add: build_index_def simp del: of_nat_Suc)
      have "\<exists>k \<le> length bs. a = boundary 0 body base bs k" if a: "a \<in> set anchors" for a
      proof -
        from a sub consider "a = (0, body, base)" | "a = ?last" | "a \<in> set new" by auto
        then show ?thesis
        proof cases
          case 1
          then show ?thesis using first by (intro exI [of _ 0]) simp
        next
          case 2
          then show ?thesis using lastb by (intro exI [of _ "length bs"]) simp
        next
          case 3
          then obtain k where "k < length bs" "a = boundary 0 body base bs k" using nw by auto
          then show ?thesis by (intro exI [of _ k]) simp
        qed
      qed
      then show ?thesis using bi True fb by (simp add: fits_star1_def bs_def del: of_nat_Suc)
    qed
  qed
qed

section \<open>Case-01: replay from an anchor\<close>

text \<open>\<open>numbered row xs\<close> pairs the rows \<open>xs\<close> with their row numbers from \<open>row\<close> on.\<close>

fun numbered :: "nat \<Rightarrow> 'a list \<Rightarrow> (nat \<times> 'a) list" where
  "numbered row [] = []"
| "numbered row (x # xs) = (row, x) # numbered (Suc row) xs"

lemma numbered_append: "numbered row (xs @ ys) = numbered row xs @ numbered (row + length xs) ys"
  by (induction xs arbitrary: row) simp_all

lemma length_numbered [simp]: "length (numbered row xs) = length xs"
  by (induction xs arbitrary: row) simp_all

lemma map_snd_numbered: "map snd (numbered row xs) = xs"
  by (induction xs arbitrary: row) simp_all

lemma map_fst_numbered: "map fst (numbered row xs) = [row ..< row + length xs]"
  by (induction xs arbitrary: row) (simp_all add: upt_rec)

lemma take_numbered: "take k (numbered row xs) = numbered row (take k xs)"
proof (induction xs arbitrary: row k)
  case Nil
  then show ?case by simp
next
  case (Cons x xs)
  then show ?case by (cases k) simp_all
qed

lemma replay_run_spec:
  assumes "s \<le> int row + 1" "int (length results) < K" "int (row + r) \<le> n - 1"
  shows "replay_run r t n (Some s) sd K cur row results
     = (foldl bar_add cur (replicate (min r (nat K - length results)) t),
        row + min r (nat K - length results),
        results @ take (min r (nat K - length results))
                    (numbered (row + 1) (rows_from cur (replicate r t))))"
  using assms
proof (induction r arbitrary: cur row results)
  case 0
  then show ?case by simp
next
  case (Suc r)
  let ?cur = "bar_add cur t"
  let ?res = "results @ [(row + 1, ?cur)]"
  have w: "want_now (Some s) sd (row + 1) ?cur" using Suc.prems(1) by (simp add: want_now_def)
  have pos: "0 < nat K - length results" using Suc.prems(2) by linarith
  show ?case
  proof (cases "int (length ?res) \<ge> K")
    case True
    then have m: "nat K - length results = 1" using Suc.prems(2) by simp
    show ?thesis using w True by (simp add: Let_def m)
  next
    case len: False
    show ?thesis
    proof (cases "int (row + 1) \<ge> n - 1")
      case True
      then have r0: "r = 0" using Suc.prems(3) by simp
      have "min (Suc 0) (nat K - length results) = 1" using pos by simp
      then show ?thesis using w len True by (simp add: Let_def r0)
    next
      case False
      have a: "s \<le> int (row + 1) + 1" using Suc.prems(1) by simp
      have b: "int (length ?res) < K" using len by simp
      have c: "int (row + 1 + r) \<le> n - 1" using Suc.prems(3) by simp
      have m: "min (Suc r) (nat K - length results) = Suc (min r (nat K - length ?res))"
        using len Suc.prems(2) by (auto simp: min_def)
      have "replay_run (Suc r) t n (Some s) sd K cur row results
          = replay_run r t n (Some s) sd K ?cur (row + 1) ?res"
        using w len False by (simp add: Let_def)
      also note Suc.IH [OF a b c]
      finally show ?thesis unfolding m by simp
    qed
  qed
qed

lemma length_rows_replicate: "length (rows_from cur (replicate r t)) = r"
  by (simp add: length_rows_from)

lemma replay_loop_full:
  "\<not> int (length results) < K \<Longrightarrow> replay_loop buf n sr sd K row pos cur results = Inr results"
  by (subst replay_loop.simps) simp

lemma replay_loop_wire:
  assumes "list_all shape1 bs" "int (row + length (expand bs)) = n - 1" "s \<le> int row + 1"
    "fits_blocks 63 bs"
  shows "replay_loop (pre @ wire bs @ rest) n (Some s) sd K row (length pre) cur results
     = Inr (results @ take (nat K - length results) (numbered (row + 1) (rows_from cur (dexp bs))))"
  using assms
proof (induction bs arbitrary: pre row cur results)
  case Nil
  then show ?case by (subst replay_loop.simps) (simp add: expand_def dexp_Nil)
next
  case (Cons b bs)
  obtain r t where b: "b = (r, t)" by (cases b)
  have sh: "shape1 b" and shs: "list_all shape1 bs" using Cons.prems(1) by simp_all
  have r: "1 \<le> r" using sh by (auto simp: shape1_def b)
  have ft: "fits_all 63 t" and fbs: "fits_blocks 63 bs"
    using Cons.prems(4) by (simp_all add: fits_blocks_def b)
  have lt: "int row < n - 1" using Cons.prems(2) r by (simp add: b expand_Cons)
  let ?buf = "pre @ wire (b # bs) @ rest"
  let ?pos2 = "length pre + length (wire_blk b)"
  let ?fut = "numbered (row + 1) (rows_from cur (replicate r (map dz t)))"
  let ?more = "numbered (row + r + 1) (rows_from (foldl bar_add cur (replicate r (map dz t))) (dexp bs))"
  have all: "numbered (row + 1) (rows_from cur (dexp (b # bs))) = ?fut @ ?more"
    by (simp add: b dexp_Cons rows_from_append numbered_append length_rows_from add.commute add.left_commute)
  show ?case
  proof (cases "int (length results) < K")
    case False
    then have "nat K - length results = 0" by simp
    then show ?thesis using False by (simp add: replay_loop_full)
  next
    case True
    let ?m = "min r (nat K - length results)"
    let ?cur = "foldl bar_add cur (replicate ?m (map dz t))"
    let ?res = "results @ take ?m ?fut"
    have buf: "?buf = pre @ wire_blk b @ (wire bs @ rest)" by (simp add: wire_Cons)
    have db: "decode_block ?buf (length pre) = Inr (map dz t, int r, ?pos2)"
      using decode_block_at [OF buf refl sh] ft by (simp add: b)
    have rr: "replay_run r (map dz t) n (Some s) sd K cur row results = (?cur, row + ?m, ?res)"
      by (rule replay_run_spec [OF Cons.prems(3) True]) (use Cons.prems(2) in \<open>simp add: b expand_Cons\<close>)
    have step: "replay_loop ?buf n (Some s) sd K row (length pre) cur results
        = replay_loop ?buf n (Some s) sd K (row + ?m) ?pos2 ?cur ?res"
      using lt True db rr by (subst replay_loop.simps) simp
    show ?thesis
    proof (cases "?m < r")
      case short: True
      then have m: "?m = nat K - length results" by simp
      have full: "\<not> int (length ?res) < K" using short True by (simp add: length_rows_from) 
      have "replay_loop ?buf n (Some s) sd K (row + ?m) ?pos2 ?cur ?res = Inr ?res"
        by (rule replay_loop_full [OF full])
      moreover have "take (nat K - length results) (?fut @ ?more) = take ?m ?fut"
        using short by (simp add: m length_rows_from) 
      ultimately show ?thesis unfolding step all by simp
    next
      case False
      then have m: "?m = r" by simp
      have buf': "?buf = (pre @ wire_blk b) @ wire bs @ rest" by (simp add: wire_Cons)
      have n': "int (row + r + length (expand bs)) = n - 1"
        using Cons.prems(2) by (simp add: b expand_Cons)
      have s': "s \<le> int (row + r) + 1" using Cons.prems(3) by simp
      have ih: "replay_loop ?buf n (Some s) sd K (row + r) ?pos2
                  (foldl bar_add cur (replicate r (map dz t))) (results @ ?fut)
          = Inr ((results @ ?fut) @ take (nat K - length (results @ ?fut)) ?more)"
        unfolding buf' using Cons.IH [OF shs n' s' fbs, of "pre @ wire_blk b"] by simp
      have tk: "take (nat K - length results) (?fut @ ?more)
          = ?fut @ take (nat K - length (results @ ?fut)) ?more"
        using False by (simp add: length_rows_from)
      have tf: "take r ?fut = ?fut" by (simp add: length_rows_from)
      show ?thesis unfolding step all m tf ih tk by simp
    qed
  qed
qed

section \<open>Case-01: anchors lie on block boundaries, and replay from them\<close>

lemma build_index_Nil: "build_index (STAR1 @ [0]) ae = Inr (0, [(0, 6, mk_bar [0, 0, 0, 0, 0, 0])])"
  and parse_star1_header_Nil:
    "parse_star1_header (STAR1 @ [0]) = Inr (0, 0, mk_bar [0, 0, 0, 0, 0, 0], 6)"
proof -
  have v: "varint_decode (STAR1 @ [0]) 5 = Inr (0, 6)"
    by (simp add: varint_decode_def varint_loop.simps [of 63 _ 5] nth_append)
  then show "parse_star1_header (STAR1 @ [0]) = Inr (0, 0, mk_bar [0, 0, 0, 0, 0, 0], 6)"
    by (simp add: parse_star1_header_def)
  then show "build_index (STAR1 @ [0]) ae = Inr (0, [(0, 6, mk_bar [0, 0, 0, 0, 0, 0])])"
    by (simp add: build_index_def)
qed

lemma anchors1_boundary:
  assumes e: "encode_star (b0 # rest) ps = Some buf" and ae: "ae \<noteq> 0"
    and bi: "build_index buf ae = Inr (n, anchors)" and a: "a \<in> set anchors"
  defines "bs \<equiv> seg1 (deltas1 b0 rest) 0"
  defines "body \<equiv> length buf - length (wire bs)"
  defines "base \<equiv> mk_bar (map dz (bar_vals b0))"
  shows "fits_star1 (b0 # rest) ps \<and> n = int (Suc (length rest))
       \<and> (\<exists>k \<le> length bs. a = boundary 0 body base bs k)"
proof -
  note bie = build_index_encode_Cons [OF e ae]
  have f: "fits_star1 (b0 # rest) ps"
  proof (rule ccontr)
    assume "\<not> fits_star1 (b0 # rest) ps"
    then have "build_index buf ae = Inl Overlong" using bie by (simp only: if_False)
    then show False using bi by simp
  qed
  then have "\<exists>anchors'. build_index buf ae = Inr (int (Suc (length rest)), anchors')
      \<and> (\<forall>a \<in> set anchors'. \<exists>k \<le> length bs. a = boundary 0 body base bs k)"
    using bie unfolding bs_def body_def base_def by (simp only: if_True)
  then obtain anchors' where b1: "build_index buf ae = Inr (int (Suc (length rest)), anchors')"
    and b2: "\<forall>a \<in> set anchors'. \<exists>k \<le> length bs. a = boundary 0 body base bs k"
    by blast
  have "n = int (Suc (length rest))" "anchors' = anchors" using b1 bi by simp_all
  then show ?thesis using b2 a f by blast
qed

lemma encode_star_layout:
  assumes e: "encode_star (b0 # rest) ps = Some buf" and f: "fits_star1 (b0 # rest) ps"
  defines "bs \<equiv> seg1 (deltas1 b0 rest) 0"
  defines "body \<equiv> length buf - length (wire bs)"
  shows "\<exists>pre. buf = pre @ wire bs \<and> length pre = body
         \<and> parse_star1_header buf
             = Inr (int (Suc (length rest)), ps, mk_bar (map dz (bar_vals b0)), body)"
proof -
  let ?n = "Suc (length rest)"
  let ?pre = "STAR1 @ venc ?n @ venc (nat ps) @ wints (bar_vals b0)"
  have ps: "0 \<le> ps" and buf: "buf = ?pre @ wire bs"
    using e by (auto simp: encode_star_Cons bs_def split: if_splits)
  have body: "body = length ?pre" by (simp add: body_def buf)
  have buf0: "buf = STAR1 @ venc ?n @ venc (nat ps) @ wints (bar_vals b0) @ wire bs"
    using buf by simp
  have "parse_star1_header buf = Inr (int ?n, ps, mk_bar (map dz (bar_vals b0)), body)"
    using parse_star1_header_at [OF buf0 _ length_bar_vals, simplified] f ps
    by (simp add: fits_star1_def body add.assoc)
  then show ?thesis using buf body by blast
qed

lemma anchors1_on_blocks:
  assumes e: "encode_star bars ps = Some buf" and ae: "ae \<noteq> 0"
    and bi: "build_index buf ae = Inr (n, anchors)" and a: "(row, off, st) \<in> set anchors"
  shows "block_start1 buf off
       \<and> (if int row < n - 1 then off < length buf \<and> (buf ! off = 0 \<or> buf ! off = 1)
          else off = length buf)"
proof (cases bars)
  case Nil
  then have buf: "buf = STAR1 @ [0]" using e by (simp add: encode_star_Nil)
  have "n = 0" "row = 0" "off = 6" using bi a by (auto simp add: buf build_index_Nil)
  moreover have "block_start1 buf 6" unfolding buf by (rule body_start1 [OF parse_star1_header_Nil])
  ultimately show ?thesis by (simp add: buf)
next
  case (Cons b0 rest)
  define bs where "bs = seg1 (deltas1 b0 rest) 0"
  define body where "body = length buf - length (wire bs)"
  define base where "base = mk_bar (map dz (bar_vals b0))"
  note ab = anchors1_boundary [OF e [unfolded Cons] ae bi a, folded bs_def, folded body_def base_def]
  have f: "fits_star1 (b0 # rest) ps" and n: "n = int (Suc (length rest))"
    using ab by blast+
  obtain k where k: "k \<le> length bs" and ak: "(row, off, st) = boundary 0 body base bs k"
    using ab by blast
  note lay = encode_star_layout [OF e [unfolded Cons] f, folded bs_def, folded body_def base_def]
  obtain pre where buf: "buf = pre @ wire bs" and pre: "length pre = body"
    and hd: "parse_star1_header buf = Inr (int (Suc (length rest)), ps, base, body)"
    using lay by blast
  have sh: "list_all shape1 bs" unfolding bs_def by (rule seg1_shape [OF deltas1_length6])
  have fb: "fits_blocks 63 bs" using f by (simp add: fits_star1_def bs_def)
  have ex: "length (expand bs) = length rest" by (simp add: bs_def seg1_expand length_deltas1)
  have row: "row = length (expand (take k bs))" and off: "off = body + length (wire (take k bs))"
    using ak by (simp_all add: boundary_def)
  have buf': "buf = pre @ wire bs @ []" using buf by simp
  have st0: "block_start1 buf (length pre)" unfolding pre by (rule body_start1 [OF hd])
  have bsx: "block_start1 buf off"
    using block_start1_wire [OF st0 buf' sh fb k] by (simp add: off pre)
  show ?thesis
  proof (cases "k < length bs")
    case True
    have "row < length (expand bs)" unfolding row by (rule expand_take_less [OF shape1_pos [OF sh] True])
    then have "int row < n - 1" by (simp add: n ex)
    then show ?thesis using bsx wire_take_tag [OF True buf'] by (simp add: off pre)
  next
    case False
    then have "k = length bs" using k by simp
    then have "row = length (expand bs)" "off = length buf" by (simp_all add: row off buf pre)
    then show ?thesis using bsx by (simp add: n ex)
  qed
qed

lemma drop_rows:
  "drop (length xs) (c # rows_from c (xs @ ys)) = foldl bar_add c xs # rows_from (foldl bar_add c xs) ys"
  by (induction xs arbitrary: c) simp_all

lemma replay1_from_anchor:
  assumes e: "encode_star bars ps = Some buf" and ae: "ae \<noteq> 0"
    and bi: "build_index buf ae = Inr (n, anchors)" and a: "(row, off, st) \<in> set anchors"
    and K: "1 \<le> K" "K \<le> n - int row"
  shows "\<exists>rows res. decode_star buf = Inr rows
           \<and> replay_from buf row off st n (Some (int row)) None K = Inr res
           \<and> map snd res = take (nat K) (drop row rows)
           \<and> map fst res = [row ..< row + nat K]"
proof (cases bars)
  case Nil
  then have buf: "buf = STAR1 @ [0]" using e by (simp add: encode_star_Nil)
  have "n = 0" "row = 0" using bi a by (auto simp add: buf build_index_Nil)
  then show ?thesis using K by simp
next
  case (Cons b0 rest)
  define bs where "bs = seg1 (deltas1 b0 rest) 0"
  define body where "body = length buf - length (wire bs)"
  define base where "base = mk_bar (map dz (bar_vals b0))"
  note ab = anchors1_boundary [OF e [unfolded Cons] ae bi a, folded bs_def, folded body_def base_def]
  have f: "fits_star1 (b0 # rest) ps" and n: "n = int (Suc (length rest))"
    using ab by blast+
  obtain k where k: "k \<le> length bs" and ak: "(row, off, st) = boundary 0 body base bs k"
    using ab by blast
  note lay = encode_star_layout [OF e [unfolded Cons] f, folded bs_def, folded body_def base_def]
  obtain pre where buf: "buf = pre @ wire bs" and pre: "length pre = body"
    using lay by blast
  have sh: "list_all shape1 bs" unfolding bs_def by (rule seg1_shape [OF deltas1_length6])
  have fb: "fits_blocks 63 bs" using f by (simp add: fits_star1_def bs_def)
  have ex: "length (expand bs) = length rest" by (simp add: bs_def seg1_expand length_deltas1)
  let ?X = "dexp (take k bs)" and ?Y = "dexp (drop k bs)"
  have row: "row = length (expand (take k bs))" and off: "off = body + length (wire (take k bs))"
    and st: "st = foldl bar_add base ?X"
    using ak by (simp_all add: boundary_def)
  have rowX: "row = length ?X" by (simp add: row length_dexp)
  have dx: "dexp bs = ?X @ ?Y" by (simp only: dexp_append [symmetric] append_take_drop_id)
  have "expand bs = expand (take k bs) @ expand (drop k bs)"
    by (simp only: expand_append [symmetric] append_take_drop_id)
  then have exk: "length (expand bs) = row + length (expand (drop k bs))"
    by (simp add: row)
  have rows: "decode_star buf = Inr (base # rows_from base (dexp bs))"
    using decode_star_encode_Cons [OF e [unfolded Cons]] f by (simp add: bs_def base_def)
  have dr: "drop row (base # rows_from base (dexp bs)) = st # rows_from st ?Y"
    unfolding dx rowX st by (rule drop_rows)
  have "wire bs = wire (take k bs) @ wire (drop k bs)"
    by (simp only: wire_append [symmetric] append_take_drop_id)
  then have buf2: "buf = (pre @ wire (take k bs)) @ wire (drop k bs) @ []"
    by (simp add: buf)
  have sh2: "list_all shape1 (drop k bs)" using sh by (auto simp: list_all_iff dest: in_set_dropD)
  have fb2: "fits_blocks 63 (drop k bs)" using fb by (auto simp: fits_blocks_def list_all_iff dest: in_set_dropD)
  have n2: "int (row + length (expand (drop k bs))) = n - 1" using exk ex n by simp
  have s2: "int row \<le> int row + 1" by simp
  have rl: "replay_loop buf n (Some (int row)) None K row off st [(row, st)]
      = Inr ([(row, st)] @ take (nat K - length [(row, st)]) (numbered (row + 1) (rows_from st ?Y)))"
    using replay_loop_wire [OF sh2 n2 s2 fb2, of "pre @ wire (take k bs)" "[]" None K st "[(row, st)]"]
    unfolding buf2 [symmetric] by (simp add: off pre)
  have w: "want_now (Some (int row)) None row st" by (simp add: want_now_def)
  obtain K' where K': "nat K = Suc K'" using K(1) by (cases "nat K") auto
  let ?res = "take (nat K) (numbered row (st # rows_from st ?Y))"
  have rf: "replay_from buf row off st n (Some (int row)) None K = Inr ?res"
    using rl w by (simp add: replay_from_def K')
  have len: "nat K \<le> length (st # rows_from st ?Y)"
    using K(2) n2 by (simp add: length_rows_from length_dexp)
  have "map snd ?res = take (nat K) (drop row (base # rows_from base (dexp bs)))"
    unfolding dr by (simp only: take_numbered map_snd_numbered)
  moreover have "map fst ?res = [row ..< row + nat K]"
    using len by (simp only: take_numbered map_fst_numbered length_take min_absorb2)
  ultimately show ?thesis using rows rf by blast
qed

section \<open>Case-02: air-quality ticks (star\_case02\_airquality\_replay.py)\<close>

record AirTick =
  t_min :: int
  co_x10 :: int
  c6h6_x10 :: int
  nox :: int
  no2 :: int
  t_x10 :: int
  rh_x10 :: int
  ah_x1000 :: int

text \<open>\<open>base_vals\<close> (lines 184--193).\<close>

definition tick_vals :: "AirTick \<Rightarrow> int list" where
  "tick_vals b = [t_min b, co_x10 b, c6h6_x10 b, nox b, no2 b, t_x10 b, rh_x10 b, ah_x1000 b]"

definition mk_tick :: "int list \<Rightarrow> AirTick" where
  "mk_tick vals = \<lparr>t_min = vals ! 0, co_x10 = vals ! 1, c6h6_x10 = vals ! 2, nox = vals ! 3,
                   no2 = vals ! 4, t_x10 = vals ! 5, rh_x10 = vals ! 6, ah_x1000 = vals ! 7\<rparr>"

text \<open>The nested function \<open>deltas(prev, cur)\<close> (lines 197--207).\<close>

definition deltas2 :: "AirTick \<Rightarrow> AirTick \<Rightarrow> int list" where
  "deltas2 prev cur =
     [t_min cur - t_min prev, co_x10 cur - co_x10 prev, c6h6_x10 cur - c6h6_x10 prev,
      nox cur - nox prev, no2 cur - no2 prev, t_x10 cur - t_x10 prev,
      rh_x10 cur - rh_x10 prev, ah_x1000 cur - ah_x1000 prev]"

text \<open>\<open>AirTick(prev.t_min + dt, ..., prev.ah_x1000 + dah)\<close>, the tuple unpacked in order.\<close>

definition tick_add :: "AirTick \<Rightarrow> int list \<Rightarrow> AirTick" where
  "tick_add prev tup =
     \<lparr>t_min = t_min prev + tup ! 0, co_x10 = co_x10 prev + tup ! 1,
      c6h6_x10 = c6h6_x10 prev + tup ! 2, nox = nox prev + tup ! 3, no2 = no2 prev + tup ! 4,
      t_x10 = t_x10 prev + tup ! 5, rh_x10 = rh_x10 prev + tup ! 6,
      ah_x1000 = ah_x1000 prev + tup ! 7\<rparr>"

definition STAR2A :: "byte list" where
  "STAR2A = [0x53, 0x54, 0x41, 0x52, 0x32, 0x41]"

subsection \<open>encode\_star (lines 175--240)\<close>

text \<open>The inner \<open>while j < len(ticks)\<close> (lines 221--228); it has no bound on \<open>run\<close>.\<close>

function scan_run2 :: "AirTick list \<Rightarrow> int list \<Rightarrow> AirTick \<Rightarrow> nat \<Rightarrow> nat \<Rightarrow> nat" where
  "scan_run2 ticks dtup cur run j =
     (if j < length ticks then
        (let nxt = ticks ! j in
         if deltas2 cur nxt = dtup then scan_run2 ticks dtup nxt (run + 1) (j + 1) else run)
      else run)"
  by pat_completeness auto
termination
  by (relation "measure (\<lambda>(ticks, dtup, cur, run, j). length ticks - j)") auto

declare scan_run2.simps [simp del]

text \<open>The outer \<open>while i < len(ticks)\<close> (lines 213--238), from \<open>i = 1\<close>.\<close>

function encode_loop2 :: "AirTick list \<Rightarrow> nat \<Rightarrow> byte list option" where
  "encode_loop2 ticks i =
     (if i < length ticks then
        (let prev = ticks ! (i - 1);
             cur = ticks ! i;
             dtup = deltas2 prev cur;
             run = scan_run2 ticks dtup cur 1 (i + 1)
         in if run \<ge> 3 then
              (case varint_encode (int run) of
                 None \<Rightarrow> None
               | Some r \<Rightarrow>
                   (case write_ints dtup of
                      None \<Rightarrow> None
                    | Some t \<Rightarrow>
                        (case encode_loop2 ticks (i + run) of
                           None \<Rightarrow> None
                         | Some rest \<Rightarrow> Some (0 # r @ t @ rest))))
            else
              (case write_ints dtup of
                 None \<Rightarrow> None
               | Some t \<Rightarrow>
                   (case encode_loop2 ticks (i + 1) of
                      None \<Rightarrow> None
                    | Some rest \<Rightarrow> Some (1 # t @ rest))))
      else Some [])"
  by pat_completeness auto
termination
  by (relation "measure (\<lambda>(ticks, i). length ticks - i)") auto

declare encode_loop2.simps [simp del]

definition encode_star2 :: "AirTick list \<Rightarrow> byte list option" where
  "encode_star2 ticks =
     (case ticks of
        [] \<Rightarrow> do { z \<leftarrow> varint_encode 0; Some (STAR2A @ z) }
      | base # rest \<Rightarrow>
          do { n \<leftarrow> varint_encode (int (length ticks));
               b \<leftarrow> write_ints (tick_vals base);
               body \<leftarrow> encode_loop2 ticks 1;
               Some (STAR2A @ n @ b @ body) })"

subsection \<open>decode\_star (lines 243--318)\<close>

text \<open>
  The \<open>for _ in range(run_len)\<close> loop with its \<open>if len(ticks) >= n: break\<close>
  (lines 279--294).
\<close>

fun apply_run2 :: "nat \<Rightarrow> int list \<Rightarrow> int \<Rightarrow> AirTick list \<Rightarrow> AirTick list" where
  "apply_run2 0 tup n ticks = ticks"
| "apply_run2 (Suc k) tup n ticks =
     (let ticks' = ticks @ [tick_add (last ticks) tup]
      in if int (length ticks') \<ge> n then ticks' else apply_run2 k tup n ticks')"

function decode_loop2 :: "byte list \<Rightarrow> int \<Rightarrow> AirTick list \<Rightarrow> nat \<Rightarrow> error + AirTick list" where
  "decode_loop2 buf n ticks i =
     (if \<not> int (length ticks) < n then Inr ticks
      else if i \<ge> length buf then Inl TruncatedBody
      else
        let tag = buf ! i in
        if tag = 0 then
          (case varint_decode2 buf (i + 1) of
             Inl e \<Rightarrow> Inl e
           | Inr (run_len, i1) \<Rightarrow>
               (case read_ints 70 8 buf i1 of
                  Inl e \<Rightarrow> Inl e
                | Inr (tup, i2) \<Rightarrow>
                    decode_loop2 buf n (apply_run2 (nat run_len) tup n ticks) i2))
        else if tag = 1 then
          (case read_ints 70 8 buf (i + 1) of
             Inl e \<Rightarrow> Inl e
           | Inr (tup, i2) \<Rightarrow> decode_loop2 buf n (ticks @ [tick_add (last ticks) tup]) i2)
        else Inl BadTag)"
  by pat_completeness auto
termination
  apply (relation "measure (\<lambda>(buf, n, ticks, i). length buf - i)")
    apply simp
   apply (auto simp: varint_decode2_def dest!: varint_loop_pos read_ints_pos)
  done

declare decode_loop2.simps [simp del]

definition decode_star2 :: "byte list \<Rightarrow> error + AirTick list" where
  "decode_star2 buf =
     (if take 6 buf \<noteq> STAR2A then Inl BadMagic
      else
        (case varint_decode2 buf 6 of
           Inl e \<Rightarrow> Inl e
         | Inr (n, i) \<Rightarrow>
             if n = 0 then Inr []
             else
               (case read_ints 70 8 buf i of
                  Inl e \<Rightarrow> Inl e
                | Inr (base_vals, i1) \<Rightarrow> decode_loop2 buf n [mk_tick base_vals] i1)))"

subsection \<open>The index builder (star\_index\_case02.py)\<close>

type_synonym anchor2 = "nat \<times> nat \<times> AirTick"

text \<open>
  \<open>for _ in range(run_len): if cur_row >= n - 1: break; cur = ...; cur_row += 1\<close>
  (lines 78--91).
\<close>

fun index_run2 :: "nat \<Rightarrow> int list \<Rightarrow> int \<Rightarrow> AirTick \<Rightarrow> nat \<Rightarrow> AirTick \<times> nat" where
  "index_run2 0 tup n cur cur_row = (cur, cur_row)"
| "index_run2 (Suc k) tup n cur cur_row =
     (if int cur_row \<ge> n - 1 then (cur, cur_row)
      else index_run2 k tup n (tick_add cur tup) (cur_row + 1))"

text \<open>\<open>if cur_row % anchor_every == 0: record_anchor()\<close>\<close>

definition record_if :: "int \<Rightarrow> anchor2 list \<Rightarrow> nat \<Rightarrow> nat \<Rightarrow> AirTick \<Rightarrow> anchor2 list" where
  "record_if anchor_every anchors cur_row pos cur =
     (if int cur_row mod anchor_every = 0 then anchors @ [(cur_row, pos, cur)] else anchors)"

function index_loop2 :: "byte list \<Rightarrow> int \<Rightarrow> int \<Rightarrow> anchor2 list \<Rightarrow> nat \<Rightarrow> nat \<Rightarrow> AirTick
    \<Rightarrow> error + anchor2 list" where
  "index_loop2 buf n anchor_every anchors cur_row pos cur =
     (if \<not> int cur_row < n - 1 then Inr anchors
      else if pos \<ge> length buf then Inl TruncatedBody
      else
        let tag = buf ! pos in
        if tag = 0 then
          (case varint_decode2 buf (pos + 1) of
             Inl e \<Rightarrow> Inl e
           | Inr (run_u, p1) \<Rightarrow>
               (case read_ints 70 8 buf p1 of
                  Inl e \<Rightarrow> Inl e
                | Inr (tup, p2) \<Rightarrow>
                    (case index_run2 (nat run_u) tup n cur cur_row of
                       (cur', row') \<Rightarrow>
                         index_loop2 buf n anchor_every
                           (record_if anchor_every anchors row' p2 cur') row' p2 cur')))
        else if tag = 1 then
          (case read_ints 70 8 buf (pos + 1) of
             Inl e \<Rightarrow> Inl e
           | Inr (tup, p2) \<Rightarrow>
               index_loop2 buf n anchor_every
                 (record_if anchor_every anchors (cur_row + 1) p2 (tick_add cur tup))
                 (cur_row + 1) p2 (tick_add cur tup))
        else Inl BadTag)"
  by pat_completeness auto
termination
  apply (relation "measure (\<lambda>(buf, n, anchor_every, anchors, cur_row, pos, cur). length buf - pos)")
    apply simp
   apply (auto simp: varint_decode2_def dest!: varint_loop_pos read_ints_pos)
  done

declare index_loop2.simps [simp del]

text \<open>
  \<open>build_index\<close> (lines 23--112) up to the list of anchors; the rest writes \<open>n\<close> and the
  anchors to the index file.
\<close>

definition build_index2 :: "byte list \<Rightarrow> int \<Rightarrow> error + (int \<times> anchor2 list)" where
  "build_index2 buf anchor_every =
     (if anchor_every \<le> 0 then Inl BadAnchorEvery
      else if take 6 buf \<noteq> STAR2A then Inl BadMagic
      else
        (case varint_decode2 buf 6 of
           Inl e \<Rightarrow> Inl e
         | Inr (n, i) \<Rightarrow>
             if n = 0 then Inr (n, [(0, i, mk_tick [0, 0, 0, 0, 0, 0, 0, 0])])
             else
               (case read_ints 70 8 buf i of
                  Inl e \<Rightarrow> Inl e
                | Inr (base_vals, i1) \<Rightarrow>
                    (case index_loop2 buf n anchor_every [(0, i1, mk_tick base_vals)] 0 i1
                            (mk_tick base_vals) of
                       Inl e \<Rightarrow> Inl e
                     | Inr anchors \<Rightarrow> Inr (n, anchors)))))"

section \<open>Index files and the replay engines\<close>

subsection \<open>struct.unpack\_from on little-endian fields\<close>

text \<open>
  \<open>struct.unpack_from(fmt, b, p)\<close> raises \<open>struct.error\<close> when fewer bytes than the
  format needs are left at \<open>p\<close>; the formats used are \<open>B\<close>, \<open>I\<close>, \<open>Q\<close> (unsigned, 1, 4
  and 8 bytes) and \<open>i\<close>, \<open>q\<close> (two's complement, 4 and 8 bytes), little-endian.
\<close>

fun le_nat :: "byte list \<Rightarrow> nat" where
  "le_nat [] = 0"
| "le_nat (b # bs) = unat b + 256 * le_nat bs"

definition field_u :: "nat \<Rightarrow> byte list \<Rightarrow> nat \<Rightarrow> nat" where
  "field_u k b p = le_nat (take k (drop p b))"

definition field_i :: "nat \<Rightarrow> byte list \<Rightarrow> nat \<Rightarrow> int" where
  "field_i k b p =
     (let v = int (field_u k b p)
      in if v \<ge> 2 ^ (8 * k - 1) then v - 2 ^ (8 * k) else v)"

definition unpack_u :: "nat \<Rightarrow> byte list \<Rightarrow> nat \<Rightarrow> error + nat" where
  "unpack_u k b p = (if p + k > length b then Inl StructError else Inr (field_u k b p))"

subsection \<open>Case-02: load\_index and replay\_seek (star\_replay\_case02.py)\<close>

definition STARIDX2 :: "byte list" where
  "STARIDX2 = [0x53, 0x54, 0x41, 0x52, 0x49, 0x44, 0x58, 0x32]"

text \<open>One pass of the anchor loop (lines 46--50): \<open>Q\<close>, \<open>Q\<close> and \<open>qqqqqqqq\<close>.\<close>

fun load_anchors2 :: "nat \<Rightarrow> byte list \<Rightarrow> nat \<Rightarrow> error + anchor2 list" where
  "load_anchors2 0 b p = Inr []"
| "load_anchors2 (Suc k) b p =
     (case unpack_u 8 b p of
        Inl e \<Rightarrow> Inl e
      | Inr row \<Rightarrow>
          (case unpack_u 8 b (p + 8) of
             Inl e \<Rightarrow> Inl e
           | Inr off \<Rightarrow>
               if p + 16 + 64 > length b then Inl StructError
               else
                 (case load_anchors2 k b (p + 16 + 64) of
                    Inl e \<Rightarrow> Inl e
                  | Inr rest \<Rightarrow>
                      Inr ((row, off, mk_tick (map (\<lambda>j. field_i 8 b (p + 16 + 8 * j)) [0 ..< 8]))
                           # rest))))"

definition load_index2 :: "byte list \<Rightarrow> error + (nat \<times> nat \<times> anchor2 list)" where
  "load_index2 b =
     (if take 8 b \<noteq> STARIDX2 then Inl BadIndexMagic
      else
        (case unpack_u 1 b 8 of
           Inl e \<Rightarrow> Inl e
         | Inr ver \<Rightarrow>
             if ver \<noteq> 1 then Inl BadIndexVersion
             else
               (case unpack_u 4 b 9 of
                  Inl e \<Rightarrow> Inl e
                | Inr anchor_every \<Rightarrow>
                    (case unpack_u 8 b 13 of
                       Inl e \<Rightarrow> Inl e
                     | Inr nrows \<Rightarrow>
                         (case unpack_u 4 b 21 of
                            Inl e \<Rightarrow> Inl e
                          | Inr nanchors \<Rightarrow>
                              (case load_anchors2 nanchors b 25 of
                                 Inl e \<Rightarrow> Inl e
                               | Inr anchors \<Rightarrow> Inr (anchor_every, nrows, anchors)))))))"

text \<open>
  \<open>best = 0; for k in range(len(anchors)): if anchors[k][0] <= seek_row: best = k
  else: break\<close> (lines 72--77).
\<close>

fun find_best :: "anchor2 list \<Rightarrow> int \<Rightarrow> nat \<Rightarrow> nat \<Rightarrow> nat" where
  "find_best [] seek_row k best = best"
| "find_best (a # as) seek_row k best =
     (if int (fst a) \<le> seek_row then find_best as seek_row (k + 1) k else best)"

text \<open>The first loop, \<open>while cur_row < seek_row\<close> (lines 92--131).\<close>

fun seek_run2 :: "nat \<Rightarrow> int list \<Rightarrow> int \<Rightarrow> AirTick \<Rightarrow> nat \<Rightarrow> AirTick \<times> nat" where
  "seek_run2 0 tup seek_row cur cur_row = (cur, cur_row)"
| "seek_run2 (Suc k) tup seek_row cur cur_row =
     (if int cur_row \<ge> seek_row then (cur, cur_row)
      else seek_run2 k tup seek_row (tick_add cur tup) (cur_row + 1))"

function seek_loop2 :: "byte list \<Rightarrow> int \<Rightarrow> nat \<Rightarrow> nat \<Rightarrow> AirTick
    \<Rightarrow> error + (nat \<times> nat \<times> AirTick)" where
  "seek_loop2 buf seek_row cur_row pos cur =
     (if \<not> int cur_row < seek_row then Inr (cur_row, pos, cur)
      else if pos \<ge> length buf then Inl TruncatedBody
      else
        let tag = buf ! pos in
        if tag = 0 then
          (case varint_decode2 buf (pos + 1) of
             Inl e \<Rightarrow> Inl e
           | Inr (run_u, p1) \<Rightarrow>
               (case read_ints 70 8 buf p1 of
                  Inl e \<Rightarrow> Inl e
                | Inr (tup, p2) \<Rightarrow>
                    (case seek_run2 (nat run_u) tup seek_row cur cur_row of
                       (cur', row') \<Rightarrow> seek_loop2 buf seek_row row' p2 cur')))
        else if tag = 1 then
          (case read_ints 70 8 buf (pos + 1) of
             Inl e \<Rightarrow> Inl e
           | Inr (tup, p2) \<Rightarrow> seek_loop2 buf seek_row (cur_row + 1) p2 (tick_add cur tup))
        else Inl BadTag)"
  by pat_completeness auto
termination
  apply (relation "measure (\<lambda>(buf, seek_row, cur_row, pos, cur). length buf - pos)")
    apply simp
   apply (auto simp: varint_decode2_def dest!: varint_loop_pos read_ints_pos)
  done

declare seek_loop2.simps [simp del]

text \<open>
  The second loop, \<open>while cur_row < target_end - 1\<close> (lines 135--175); at the end of
  the buffer it leaves with \<open>break\<close>.
\<close>

fun emit_run2 :: "nat \<Rightarrow> int list \<Rightarrow> int \<Rightarrow> AirTick \<Rightarrow> nat \<Rightarrow> AirTick list
    \<Rightarrow> AirTick \<times> nat \<times> AirTick list" where
  "emit_run2 0 tup target_end cur cur_row out = (cur, cur_row, out)"
| "emit_run2 (Suc k) tup target_end cur cur_row out =
     (if int cur_row \<ge> target_end - 1 then (cur, cur_row, out)
      else emit_run2 k tup target_end (tick_add cur tup) (cur_row + 1)
             (out @ [tick_add cur tup]))"

function emit_loop2 :: "byte list \<Rightarrow> int \<Rightarrow> nat \<Rightarrow> nat \<Rightarrow> AirTick \<Rightarrow> AirTick list
    \<Rightarrow> error + AirTick list" where
  "emit_loop2 buf target_end cur_row pos cur out =
     (if \<not> int cur_row < target_end - 1 then Inr out
      else if pos \<ge> length buf then Inr out
      else
        let tag = buf ! pos in
        if tag = 0 then
          (case varint_decode2 buf (pos + 1) of
             Inl e \<Rightarrow> Inl e
           | Inr (run_u, p1) \<Rightarrow>
               (case read_ints 70 8 buf p1 of
                  Inl e \<Rightarrow> Inl e
                | Inr (tup, p2) \<Rightarrow>
                    (case emit_run2 (nat run_u) tup target_end cur cur_row out of
                       (cur', row', out') \<Rightarrow> emit_loop2 buf target_end row' p2 cur' out')))
        else if tag = 1 then
          (case read_ints 70 8 buf (pos + 1) of
             Inl e \<Rightarrow> Inl e
           | Inr (tup, p2) \<Rightarrow>
               emit_loop2 buf target_end (cur_row + 1) p2 (tick_add cur tup)
                 (out @ [tick_add cur tup]))
        else Inl BadTag)"
  by pat_completeness auto
termination
  apply (relation "measure (\<lambda>(buf, target_end, cur_row, pos, cur, out). length buf - pos)")
    apply simp
   apply (auto simp: varint_decode2_def dest!: varint_loop_pos read_ints_pos)
  done

declare emit_loop2.simps [simp del]

text \<open>\<open>replay_seek\<close> from the loaded index on (lines 62--177).\<close>

definition replay_seek_idx :: "byte list \<Rightarrow> nat \<times> nat \<times> anchor2 list \<Rightarrow> int option \<Rightarrow> int
    \<Rightarrow> error + AirTick list" where
  "replay_seek_idx buf idx seek_row_arg rows =
     (case idx of (anchor_every, nrows, anchors) \<Rightarrow>
        if nrows = 0 then Inr []
        else
          let seek_row = (case seek_row_arg of None \<Rightarrow> 0 | Some s \<Rightarrow> if s < 0 then 0 else s) in
          if seek_row \<ge> int nrows then Inr []
          else
            let best = find_best anchors seek_row 0 0 in
            if best \<ge> length anchors then Inl IndexError
            else
              (case anchors ! best of (a_row, a_off, a_tick) \<Rightarrow>
                 (case seek_loop2 buf seek_row a_row a_off a_tick of
                    Inl e \<Rightarrow> Inl e
                  | Inr (cur_row, pos, cur) \<Rightarrow>
                      emit_loop2 buf (min (int nrows) (seek_row + rows)) cur_row pos cur [cur])))"

text \<open>\<open>replay_seek\<close> (lines 55--177) on the contents of the two files.\<close>

definition replay_seek :: "byte list \<Rightarrow> byte list \<Rightarrow> int option \<Rightarrow> int \<Rightarrow> error + AirTick list" where
  "replay_seek buf idx_bytes seek_row rows =
     (if take 6 buf \<noteq> STAR2A then Inl BadMagic
      else
        (case load_index2 idx_bytes of
           Inl e \<Rightarrow> Inl e
         | Inr idx \<Rightarrow> replay_seek_idx buf idx seek_row rows))"

subsection \<open>Case-01: load\_index and main (star\_replay\_case01.py)\<close>

definition SIDX1 :: "byte list" where
  "SIDX1 = [0x53, 0x49, 0x44, 0x58, 0x31]"

definition CASE01 :: "byte list" where
  "CASE01 = [0x43, 0x41, 0x53, 0x45, 0x30, 0x31, 0x00]"

text \<open>One pass of the anchor loop (lines 126--132): the format \<open><IIiqqqqq\<close>, 52 bytes.\<close>

fun load_anchors1 :: "nat \<Rightarrow> byte list \<Rightarrow> nat \<Rightarrow> error + anchor list" where
  "load_anchors1 0 b off = Inr []"
| "load_anchors1 (Suc k) b off =
     (if off + 52 > length b then Inl StructError
      else
        (case load_anchors1 k b (off + 52) of
           Inl e \<Rightarrow> Inl e
         | Inr rest \<Rightarrow>
             Inr ((field_u 4 b off, field_u 4 b (off + 4),
                   \<lparr>d_days = field_i 4 b (off + 8), bar_o = field_i 8 b (off + 12),
                    bar_h = field_i 8 b (off + 20), bar_l = field_i 8 b (off + 28),
                    bar_c = field_i 8 b (off + 36), bar_v = field_i 8 b (off + 44)\<rparr>)
                  # rest)))"

text \<open>\<open>load_index\<close> (lines 112--134); \<open>row_keys\<close> and \<open>day_keys\<close> are read off the anchors.\<close>

definition load_index1 :: "byte list \<Rightarrow> error + (nat \<times> nat \<times> anchor list)" where
  "load_index1 b =
     (if take 5 b \<noteq> SIDX1 then Inl BadIndexMagic
      else if take 7 (drop 5 b) \<noteq> CASE01 then Inl BadIndexCase
      else if 12 + 12 > length b then Inl StructError
      else
        (case load_anchors1 (field_u 4 b 20) b 24 of
           Inl e \<Rightarrow> Inl e
         | Inr anchors \<Rightarrow> Inr (field_u 4 b 12, field_u 4 b 16, anchors)))"

text \<open>\<open>bisect.bisect_right(a, x)\<close> of the standard library.\<close>

function bisect_loop :: "int list \<Rightarrow> int \<Rightarrow> nat \<Rightarrow> nat \<Rightarrow> nat" where
  "bisect_loop a x lo hi =
     (if lo < hi then
        (let mid = (lo + hi) div 2
         in if x < a ! mid then bisect_loop a x lo mid else bisect_loop a x (mid + 1) hi)
      else lo)"
  by pat_completeness auto
termination
  by (relation "measure (\<lambda>(a, x, lo, hi). hi - lo)") auto

declare bisect_loop.simps [simp del]

definition bisect_right :: "int list \<Rightarrow> int \<Rightarrow> nat" where
  "bisect_right a x = bisect_loop a x 0 (length a)"

text \<open>
  \<open>main\<close> (lines 191--242): the arguments \<open>--seek_row\<close>, \<open>--seek_time\<close> (as the day
  count \<open>date_to_days\<close> gives) and \<open>--rows\<close>, and the contents of the two files; the
  result is the list of bars printed. The anchor is chosen by \<open>seek_row\<close> when it is
  given and by \<open>seek_days\<close> otherwise (one of them is, after the first test).
\<close>

definition main1 :: "int option \<Rightarrow> int option \<Rightarrow> int \<Rightarrow> byte list \<Rightarrow> byte list
    \<Rightarrow> error + Bar list" where
  "main1 seek_row seek_days rows star_buf idx_bytes =
     (if seek_row = None \<and> seek_days = None then Inl Usage
      else
        (case parse_star1_header star_buf of
           Inl e \<Rightarrow> Inl e
         | Inr (n_rows, price_scale, base, body_i) \<Rightarrow>
             (case load_index1 idx_bytes of
                Inl e \<Rightarrow> Inl e
              | Inr (anchor_every, n_rows_idx, anchors) \<Rightarrow>
                  if int n_rows_idx \<noteq> n_rows then Inl IndexMismatch
                  else
                    let j = (case seek_row of
                               Some s \<Rightarrow> int (bisect_right (map (\<lambda>a. int (fst a)) anchors) s) - 1
                             | None \<Rightarrow>
                                 (case seek_days of
                                    Some d \<Rightarrow>
                                      int (bisect_right (map (\<lambda>a. d_days (snd (snd a))) anchors) d) - 1
                                  | None \<Rightarrow> - 1));
                        j = (if j < 0 then 0 else j)
                    in if nat j \<ge> length anchors then Inl IndexError
                       else
                         (case anchors ! nat j of (a_row, a_off, a_bar) \<Rightarrow>
                            (case replay_from star_buf a_row a_off a_bar n_rows seek_row seek_days rows of
                               Inl e \<Rightarrow> Inl e
                             | Inr rows_out \<Rightarrow> Inr (map snd rows_out))))))"

section \<open>Case-04: crypto transactions (star\_case04\_crypto\_replay.py)\<close>

text \<open>
  A Python \<open>str\<close> is represented by its UTF-8 encoding, the byte list that
  \<open>s.encode("utf-8")\<close> returns; \<open>bytes.decode("utf-8")\<close> of such bytes gives the string
  back, so both are the identity here and \<open>len(b)\<close> is the length of the list. A row is
  the dictionary \<open>read_rows\<close> builds: exactly the twelve keys of \<open>need\<close>.
\<close>

type_synonym str = "byte list"

record Row04 =
  Transaction_ID :: str
  Sender_Address :: str
  Receiver_Address :: str
  Amount :: str
  Transaction_Fee :: str
  Timestamp :: str
  Block_ID :: str
  Mining_Pool :: str
  Currency :: str
  Transaction_Type :: str
  Transaction_Status :: str
  Gas_Price_Gwei :: str

definition MAGIC8 :: "byte list" where
  "MAGIC8 = [0x53, 0x54, 0x41, 0x52, 0x34, 0x04, 0x4F, 0x46]"

text \<open>\<open>DICT_COLS\<close>, each column as the function that reads it off a row.\<close>

definition DICT_COLS :: "(Row04 \<Rightarrow> str) list" where
  "DICT_COLS = [Mining_Pool, Currency, Transaction_Type, Transaction_Status]"

text \<open>
  \<open>write_uvarint\<close> (lines 28--38): after the test \<open>n < 0\<close> the loop is the loop of
  \<open>varint_encode\<close>, which for \<open>n \<ge> 0\<close> returns \<open>venc (nat n)\<close> (lemma
  \<open>varint_encode_nonneg\<close>).
\<close>

definition write_uvarint :: "int \<Rightarrow> error + byte list" where
  "write_uvarint n = (if n < 0 then Inl NegativeUvarint else Inr (venc (nat n)))"

text \<open>\<open>struct.pack("<I", x)\<close>: four little-endian bytes, \<open>struct.error\<close> out of range.\<close>

fun le_bytes :: "nat \<Rightarrow> nat \<Rightarrow> byte list" where
  "le_bytes 0 n = []"
| "le_bytes (Suc k) n = of_nat (n mod 256) # le_bytes k (n div 256)"

definition pack_u32 :: "nat \<Rightarrow> error + byte list" where
  "pack_u32 n = (if n < 2 ^ 32 then Inr (le_bytes 4 n) else Inl StructError)"

text \<open>Appending the parts of the output in order; the first part that raises ends it.\<close>

fun concat_e :: "(error + byte list) list \<Rightarrow> error + byte list" where
  "concat_e [] = Inr []"
| "concat_e (x # xs) =
     (case x of
        Inl e \<Rightarrow> Inl e
      | Inr a \<Rightarrow> (case concat_e xs of Inl e \<Rightarrow> Inl e | Inr b \<Rightarrow> Inr (a @ b)))"

text \<open>\<open>write_str\<close> (lines 55--58).\<close>

definition write_str :: "str \<Rightarrow> error + byte list" where
  "write_str s = concat_e [write_uvarint (int (length s)), Inr s]"

text \<open>\<open>build_dict\<close> (lines 98--106): the loop over the column's values.\<close>

fun build_dict_loop :: "(str \<rightharpoonup> nat) \<Rightarrow> str list \<Rightarrow> str list \<Rightarrow> (str \<rightharpoonup> nat) \<times> str list" where
  "build_dict_loop uniq arr [] = (uniq, arr)"
| "build_dict_loop uniq arr (v # vs) =
     (if uniq v = None then build_dict_loop (uniq(v \<mapsto> length arr)) (arr @ [v]) vs
      else build_dict_loop uniq arr vs)"

definition build_dict :: "Row04 list \<Rightarrow> (Row04 \<Rightarrow> str) \<Rightarrow> (str \<rightharpoonup> nat) \<times> str list" where
  "build_dict rows col = build_dict_loop Map.empty [] (map col rows)"

text \<open>The dictionary section of one column (lines 122--128).\<close>

definition emit_dict :: "str list \<Rightarrow> error + byte list" where
  "emit_dict arr =
     concat_e (pack_u32 (length arr) # map (\<lambda>s. concat_e [pack_u32 (length s), Inr s]) arr)"

text \<open>\<open>code = dmaps[col][row[col]]; write_uvarint(out, int(code))\<close>\<close>

definition emit_code :: "(str \<rightharpoonup> nat) \<Rightarrow> str \<Rightarrow> error + byte list" where
  "emit_code uniq v = (case uniq v of None \<Rightarrow> Inl KeyError | Some code \<Rightarrow> write_uvarint (int code))"

text \<open>One row (lines 130--143).\<close>

definition emit_row :: "(str \<rightharpoonup> nat) list \<Rightarrow> Row04 \<Rightarrow> error + byte list" where
  "emit_row dmaps row =
     concat_e
       ([write_str (Transaction_ID row), write_str (Sender_Address row),
         write_str (Receiver_Address row), write_str (Amount row),
         write_str (Transaction_Fee row), write_str (Timestamp row), write_str (Block_ID row)]
        @ map (\<lambda>(uniq, col). emit_code uniq (col row)) (zip dmaps DICT_COLS)
        @ [write_str (Gas_Price_Gwei row)])"

definition encode_case04 :: "Row04 list \<Rightarrow> error + byte list" where
  "encode_case04 rows =
     (let ds = map (build_dict rows) DICT_COLS
      in concat_e
           ([Inr MAGIC8, pack_u32 (length rows), pack_u32 12]
            @ map (\<lambda>d. emit_dict (snd d)) ds
            @ map (emit_row (map fst ds)) rows))"

subsection \<open>decode\_case04 (lines 147--202)\<close>

text \<open>\<open>read_str\<close> (lines 60--66).\<close>

definition read_str :: "byte list \<Rightarrow> nat \<Rightarrow> error + (str \<times> nat)" where
  "read_str buf pos =
     (case read_uvarint buf pos of
        Inl e \<Rightarrow> Inl e
      | Inr (ln, pos1) \<Rightarrow>
          if pos1 + nat ln > length buf then Inl TruncatedString
          else Inr (take (nat ln) (drop pos1 buf), pos1 + nat ln))"

text \<open>
  The entries of one dictionary (lines 163--166); a slice \<open>blob[pos:pos+ln]\<close> past the
  end is shorter and does not raise.
\<close>

fun read_entries :: "nat \<Rightarrow> byte list \<Rightarrow> nat \<Rightarrow> error + (str list \<times> nat)" where
  "read_entries 0 blob pos = Inr ([], pos)"
| "read_entries (Suc k) blob pos =
     (case unpack_u 4 blob pos of
        Inl e \<Rightarrow> Inl e
      | Inr ln \<Rightarrow>
          (case read_entries k blob (pos + 4 + ln) of
             Inl e \<Rightarrow> Inl e
           | Inr (arr, pos') \<Rightarrow> Inr (take ln (drop (pos + 4) blob) # arr, pos')))"

text \<open>\<open>for col in DICT_COLS\<close> (lines 160--167).\<close>

fun read_dicts :: "nat \<Rightarrow> byte list \<Rightarrow> nat \<Rightarrow> error + (str list list \<times> nat)" where
  "read_dicts 0 blob pos = Inr ([], pos)"
| "read_dicts (Suc k) blob pos =
     (case unpack_u 4 blob pos of
        Inl e \<Rightarrow> Inl e
      | Inr n \<Rightarrow>
          (case read_entries n blob (pos + 4) of
             Inl e \<Rightarrow> Inl e
           | Inr (arr, pos1) \<Rightarrow>
               (case read_dicts k blob pos1 of
                  Inl e \<Rightarrow> Inl e
                | Inr (ds, pos2) \<Rightarrow> Inr (arr # ds, pos2))))"

text \<open>Successive \<open>read_str\<close> and \<open>read_uvarint\<close> calls, each from where the last ended.\<close>

fun read_strs :: "nat \<Rightarrow> byte list \<Rightarrow> nat \<Rightarrow> error + (str list \<times> nat)" where
  "read_strs 0 blob pos = Inr ([], pos)"
| "read_strs (Suc k) blob pos =
     (case read_str blob pos of
        Inl e \<Rightarrow> Inl e
      | Inr (s, pos1) \<Rightarrow>
          (case read_strs k blob pos1 of
             Inl e \<Rightarrow> Inl e
           | Inr (ss, pos2) \<Rightarrow> Inr (s # ss, pos2)))"

fun read_codes :: "nat \<Rightarrow> byte list \<Rightarrow> nat \<Rightarrow> error + (int list \<times> nat)" where
  "read_codes 0 blob pos = Inr ([], pos)"
| "read_codes (Suc k) blob pos =
     (case read_uvarint blob pos of
        Inl e \<Rightarrow> Inl e
      | Inr (c, pos1) \<Rightarrow>
          (case read_codes k blob pos1 of
             Inl e \<Rightarrow> Inl e
           | Inr (cs, pos2) \<Rightarrow> Inr (c # cs, pos2)))"

text \<open>\<open>dicts[col][int(code)]\<close>, an IndexError when the code is not an index of the list.\<close>

definition lookup :: "str list \<Rightarrow> int \<Rightarrow> error + str" where
  "lookup arr code = (if nat code < length arr then Inr (arr ! nat code) else Inl IndexError)"

text \<open>One pass of \<open>for _ in range(int(nrows))\<close> (lines 170--200).\<close>

definition read_row :: "str list list \<Rightarrow> byte list \<Rightarrow> nat \<Rightarrow> error + (Row04 \<times> nat)" where
  "read_row dicts blob pos =
     (case read_strs 7 blob pos of
        Inl e \<Rightarrow> Inl e
      | Inr (ss, pos1) \<Rightarrow>
          (case read_codes 4 blob pos1 of
             Inl e \<Rightarrow> Inl e
           | Inr (cs, pos2) \<Rightarrow>
               (case read_str blob pos2 of
                  Inl e \<Rightarrow> Inl e
                | Inr (gas, pos3) \<Rightarrow>
                    (case lookup (dicts ! 0) (cs ! 0) of
                       Inl e \<Rightarrow> Inl e
                     | Inr mp \<Rightarrow>
                         (case lookup (dicts ! 1) (cs ! 1) of
                            Inl e \<Rightarrow> Inl e
                          | Inr cur \<Rightarrow>
                              (case lookup (dicts ! 2) (cs ! 2) of
                                 Inl e \<Rightarrow> Inl e
                               | Inr ty \<Rightarrow>
                                   (case lookup (dicts ! 3) (cs ! 3) of
                                      Inl e \<Rightarrow> Inl e
                                    | Inr st \<Rightarrow>
                                        Inr (\<lparr>Transaction_ID = ss ! 0, Sender_Address = ss ! 1,
                                              Receiver_Address = ss ! 2, Amount = ss ! 3,
                                              Transaction_Fee = ss ! 4, Timestamp = ss ! 5,
                                              Block_ID = ss ! 6, Mining_Pool = mp, Currency = cur,
                                              Transaction_Type = ty, Transaction_Status = st,
                                              Gas_Price_Gwei = gas\<rparr>, pos3))))))))"

fun read_rows :: "nat \<Rightarrow> str list list \<Rightarrow> byte list \<Rightarrow> nat \<Rightarrow> error + Row04 list" where
  "read_rows 0 dicts blob pos = Inr []"
| "read_rows (Suc k) dicts blob pos =
     (case read_row dicts blob pos of
        Inl e \<Rightarrow> Inl e
      | Inr (row, pos1) \<Rightarrow>
          (case read_rows k dicts blob pos1 of
             Inl e \<Rightarrow> Inl e
           | Inr rows \<Rightarrow> Inr (row # rows)))"

definition decode_case04 :: "byte list \<Rightarrow> error + Row04 list" where
  "decode_case04 blob =
     (if length blob < 16 then Inl BlobTooSmall
      else if take 8 blob \<noteq> MAGIC8 then Inl BadMagic
      else
        let nrows = field_u 4 blob 8; ncols = field_u 4 blob 12 in
        if ncols \<noteq> 12 then Inl BadCols
        else
          (case read_dicts 4 blob 16 of
             Inl e \<Rightarrow> Inl e
           | Inr (dicts, pos) \<Rightarrow> read_rows nrows dicts blob pos))"

section \<open>Cases 03 and 04: the replay scripts (star\_replay\_case03.py, star\_replay\_case04.py)\<close>

text \<open>
  The two scripts differ in their magic bytes and in how a printed line is formatted.
  \<open>hashlib.sha256\<close> is the library's; it is the parameter \<open>sha256\<close>, from the bytes of a
  file to its digest, and \<open>hexdigest\<close> and \<open>bytes.hex\<close> are \<open>hex\<close> of the digest.
\<close>

definition hex_digit :: "nat \<Rightarrow> char" where
  "hex_digit d = (''0123456789abcdef'') ! d"

definition hex :: "byte list \<Rightarrow> string" where
  "hex bs = concat (map (\<lambda>b. [hex_digit (unat b div 16), hex_digit (unat b mod 16)]) bs)"

definition sha256_file :: "(byte list \<Rightarrow> byte list) \<Rightarrow> byte list \<Rightarrow> string" where
  "sha256_file sha256 contents = hex (sha256 contents)"

record index34 =
  magic :: "byte list"
  version :: nat
  anchor_every34 :: nat
  anchors34 :: "(nat \<times> int \<times> nat) list"
  cadence_min :: int
  offsets_present :: bool
  star_sha_hex :: string

text \<open>One pass of the anchor loop: \<open>I\<close>, \<open>q\<close>, \<open>Q\<close>, each unpacked on its own.\<close>

fun load_anchors34 :: "nat \<Rightarrow> byte list \<Rightarrow> nat \<Rightarrow> error + (nat \<times> int \<times> nat) list" where
  "load_anchors34 0 buf pos = Inr []"
| "load_anchors34 (Suc k) buf pos =
     (if pos + 4 > length buf then Inl StructError
      else if pos + 4 + 8 > length buf then Inl StructError
      else if pos + 12 + 8 > length buf then Inl StructError
      else
        (case load_anchors34 k buf (pos + 20) of
           Inl e \<Rightarrow> Inl e
         | Inr rest \<Rightarrow>
             Inr ((field_u 4 buf pos, field_i 8 buf (pos + 4), field_u 8 buf (pos + 12)) # rest)))"

text \<open>\<open>load_index\<close> with the script's \<open>MAGIC_A\<close> and \<open>MAGIC_B\<close>.\<close>

definition load_index34 :: "byte list \<Rightarrow> byte list \<Rightarrow> byte list \<Rightarrow> error + index34" where
  "load_index34 magic_a magic_b buf =
     (if \<not> (take (length magic_a) buf = magic_a \<or> take (length magic_b) buf = magic_b)
      then Inl BadIndexMagic
      else
        let m = (if take (length magic_a) buf = magic_a then magic_a else magic_b);
            pos = length m
        in if pos + 24 > length buf then Inl StructError
           else
             (case load_anchors34 (field_u 4 buf (pos + 8)) buf (pos + 24 + 32) of
                Inl e \<Rightarrow> Inl e
              | Inr anchors \<Rightarrow>
                  Inr \<lparr>magic = m, version = field_u 4 buf pos,
                       anchor_every34 = field_u 4 buf (pos + 4), anchors34 = anchors,
                       cadence_min = field_i 8 buf (pos + 16),
                       offsets_present = (field_u 4 buf (pos + 12) mod 2 \<noteq> 0),
                       star_sha_hex = hex (take 32 (drop (pos + 24) buf))\<rparr>))"

text \<open>The loop of \<open>resolve_seek\<close> that keeps the last anchor at or before the target.\<close>

fun nearest :: "(nat \<times> int \<times> nat) list \<Rightarrow> int \<Rightarrow> (nat \<times> int \<times> nat) \<Rightarrow> (nat \<times> int \<times> nat)" where
  "nearest [] target_row best = best"
| "nearest (a # as) target_row best =
     (if int (fst a) \<le> target_row then nearest as target_row a else best)"

definition resolve_seek :: "(nat \<times> int \<times> nat) list \<Rightarrow> int \<Rightarrow> int \<Rightarrow> int option \<Rightarrow> int option
    \<Rightarrow> error + (int \<times> (nat \<times> int \<times> nat))" where
  "resolve_seek anchors cadence seek_row seek_time_min rows_hint =
     (if seek_time_min \<noteq> None \<and> cadence = 0 then Inl ZeroDivision
      else
        let target_row = (case seek_time_min of Some t \<Rightarrow> t div cadence | None \<Rightarrow> seek_row);
            target_row = (case rows_hint of
                            Some h \<Rightarrow> max 0 (min target_row (h - 1))
                          | None \<Rightarrow> target_row)
        in case anchors of
             [] \<Rightarrow> Inl IndexError
           | a0 # _ \<Rightarrow> Inr (target_row, nearest anchors target_row a0))"

text \<open>The preview loop: \<open>for i in range(int(args.rows))\<close> with its \<open>break\<close>.\<close>

fun preview :: "nat \<Rightarrow> int \<Rightarrow> int \<Rightarrow> int option \<Rightarrow> (int \<times> int) list" where
  "preview 0 r cadence rows_hint = []"
| "preview (Suc k) r cadence rows_hint =
     (if (case rows_hint of Some h \<Rightarrow> r \<ge> h | None \<Rightarrow> False) then []
      else (r, r * cadence) # preview k (r + 1) cadence rows_hint)"

text \<open>
  \<open>main\<close>: the arguments \<open>--seek_row\<close>, \<open>--seek_time\<close>, \<open>--rows\<close>, \<open>--rows_hint\<close> and
  \<open>--cadence_min\<close>, and the contents of the STAR file and of the index; the result is
  the list of \<open>(row, t_min)\<close> lines of the preview.
\<close>

definition main34 :: "byte list \<Rightarrow> byte list \<Rightarrow> (byte list \<Rightarrow> byte list) \<Rightarrow> int option \<Rightarrow> int option
    \<Rightarrow> int \<Rightarrow> int option \<Rightarrow> int option \<Rightarrow> byte list \<Rightarrow> byte list \<Rightarrow> error + (int \<times> int) list" where
  "main34 magic_a magic_b sha256 seek_row seek_time rows rows_hint cadence_arg star idx_bytes =
     (if seek_row = None \<and> seek_time = None then Inl Usage
      else
        let star_sha = sha256_file sha256 star in
        (case load_index34 magic_a magic_b idx_bytes of
           Inl e \<Rightarrow> Inl e
         | Inr idx \<Rightarrow>
             let cadence = (case cadence_arg of Some c \<Rightarrow> c | None \<Rightarrow> cadence_min idx) in
             if star_sha_hex idx \<noteq> star_sha then Inl BindingMismatch
             else
               (case resolve_seek (anchors34 idx) cadence
                       (case seek_row of Some s \<Rightarrow> s | None \<Rightarrow> 0) seek_time rows_hint of
                  Inl e \<Rightarrow> Inl e
                | Inr (target_row, best) \<Rightarrow> Inr (preview (nat rows) target_row cadence rows_hint))))"

definition STARIDX03 :: "byte list" where
  "STARIDX03 = [0x53, 0x54, 0x41, 0x52, 0x49, 0x44, 0x58, 0x30, 0x33]"

definition STARIDX04 :: "byte list" where
  "STARIDX04 = [0x53, 0x54, 0x41, 0x52, 0x49, 0x44, 0x58, 0x30, 0x34]"

definition main03 :: "(byte list \<Rightarrow> byte list) \<Rightarrow> int option \<Rightarrow> int option \<Rightarrow> int \<Rightarrow> int option
    \<Rightarrow> int option \<Rightarrow> byte list \<Rightarrow> byte list \<Rightarrow> error + (int \<times> int) list" where
  "main03 = main34 (STARIDX03 @ [0]) STARIDX03"

definition main04 :: "(byte list \<Rightarrow> byte list) \<Rightarrow> int option \<Rightarrow> int option \<Rightarrow> int \<Rightarrow> int option
    \<Rightarrow> int option \<Rightarrow> byte list \<Rightarrow> byte list \<Rightarrow> error + (int \<times> int) list" where
  "main04 = main34 (STARIDX04 @ [0]) STARIDX04"

section \<open>The row count of a decoded blob\<close>

lemma varint_loop_nonneg:
  "varint_loop lim buf i s u = Inr (v, j) \<Longrightarrow> 0 \<le> u \<Longrightarrow> 0 \<le> v"
proof (induction lim buf i s u rule: varint_loop.induct)
  case (1 lim buf i shift u)
  let ?u = "u OR push_bit shift (uint (buf ! i) AND 0x7F)"
  have u': "0 \<le> ?u" using "1.prems"(2) by simp
  show ?case
  proof (cases "i \<ge> length buf")
    case True
    then show ?thesis using "1.prems" by (simp add: varint_loop.simps [of lim buf i])
  next
    case False
    show ?thesis
    proof (cases "uint (buf ! i) AND 0x80 = 0")
      case True
      then have "v = ?u" using "1.prems"(1) False
        by (simp add: varint_loop.simps [of lim buf i] Let_def del: push_bit_and)
      then show ?thesis using u' by simp
    next
      case c: False
      then have ok: "\<not> shift + 7 > lim" using "1.prems" False
        by (auto simp add: varint_loop.simps [of lim buf i] Let_def split: if_splits)
      have r: "varint_loop lim buf (i + 1) (shift + 7) ?u = Inr (v, j)"
        using "1.prems" False c ok
        by (simp add: varint_loop.simps [of lim buf i] Let_def del: push_bit_and)
      from "1.IH" [OF False refl refl refl c refl ok r u'] show ?thesis .
    qed
  qed
qed

lemma apply_run2_length:
  "int (length ticks) < n \<Longrightarrow> int (length (apply_run2 k tup n ticks)) \<le> n"
  by (induction k arbitrary: ticks) (auto simp: Let_def)

lemma decode_loop2_length:
  "decode_loop2 buf n ticks i = Inr out \<Longrightarrow> int (length ticks) \<le> n \<Longrightarrow> int (length out) = n"
proof (induction buf n ticks i rule: decode_loop2.induct)
  case (1 buf n ticks i)
  show ?case
  proof (cases "int (length ticks) < n")
    case False
    then show ?thesis using "1.prems" by (simp add: decode_loop2.simps [of buf n ticks i])
  next
    case lt: True
    then have nn: "\<not> \<not> int (length ticks) < n" by simp
    from lt have ib: "\<not> i \<ge> length buf" using "1.prems"(1)
      by (auto simp add: decode_loop2.simps [of buf n ticks i])
    show ?thesis
    proof (cases "buf ! i = 0")
      case True
      from "1.prems"(1) lt ib True obtain run_len i1 tup i2 where
        v: "varint_decode2 buf (i + 1) = Inr (run_len, i1)" and r: "read_ints 70 8 buf i1 = Inr (tup, i2)"
        and d: "decode_loop2 buf n (apply_run2 (nat run_len) tup n ticks) i2 = Inr out"
        by (auto simp add: decode_loop2.simps [of buf n ticks i] Let_def split: sum.splits)
      have "int (length (apply_run2 (nat run_len) tup n ticks)) \<le> n"
        by (rule apply_run2_length [OF lt])
      from "1.IH"(1) [OF nn ib refl True v refl r refl d this]
      show ?thesis .
    next
      case False
      then have t1: "buf ! i = 1" using "1.prems"(1) lt ib
        by (auto simp add: decode_loop2.simps [of buf n ticks i] Let_def split: if_splits)
      from "1.prems"(1) lt ib False t1 obtain tup i2 where
        r: "read_ints 70 8 buf (i + 1) = Inr (tup, i2)"
        and d: "decode_loop2 buf n (ticks @ [tick_add (last ticks) tup]) i2 = Inr out"
        by (auto simp add: decode_loop2.simps [of buf n ticks i] Let_def split: sum.splits)
      have "int (length (ticks @ [tick_add (last ticks) tup])) \<le> n" using lt by simp
      from "1.IH"(2) [OF nn ib refl False t1 r refl d this]
      show ?thesis .
    qed
  qed
qed

text \<open>The Case-02 decoder returns exactly as many rows as the header says.\<close>

lemma decode_star2_length:
  assumes "decode_star2 buf = Inr out"
  shows "\<exists>n i. varint_decode2 buf 6 = Inr (n, i) \<and> int (length out) = n"
proof -
  from assms obtain n i where v: "varint_decode2 buf 6 = Inr (n, i)"
    by (auto simp: decode_star2_def split: if_splits sum.splits)
  have n0: "0 \<le> n" using v varint_loop_nonneg [of 70 buf 6 0 0 n i] by (simp add: varint_decode2_def)
  show ?thesis
  proof (cases "n = 0")
    case True
    then show ?thesis using assms v by (auto simp: decode_star2_def split: if_splits)
  next
    case False
    then obtain base i1 where "decode_loop2 buf n [mk_tick base] i1 = Inr out"
      using assms v by (auto simp: decode_star2_def split: if_splits sum.splits)
    from decode_loop2_length [OF this] False n0 have "int (length out) = n" by simp
    then show ?thesis using v by simp
  qed
qed

text \<open>
  C3. The Case-01 decoder is to return exactly \<open>n\<close> rows. On the blob below, whose
  header says \<open>n = 2\<close> and whose single tag-0 block has run length 5, it returns six
  rows: the run loop of \<open>decode_star\<close> (Case-01) has no test against \<open>n\<close>, where the
  Case-02 decoder has one (\<open>decode_star2_length\<close>).
\<close>

theorem decode_star_overshoot:
  "decode_star (STAR1 @ [2, 100, 0, 0, 0, 0, 0, 0, 0, 5, 2, 0, 0, 0, 0, 0])
     = Inr (map (\<lambda>d. \<lparr>d_days = d, bar_o = 0, bar_h = 0, bar_l = 0, bar_c = 0, bar_v = 0\<rparr>)
                [0, 1, 2, 3, 4, 5])
   \<and> varint_decode (STAR1 @ [2, 100, 0, 0, 0, 0, 0, 0, 0, 5, 2, 0, 0, 0, 0, 0]) 5 = Inr (2, 6)"
  by code_simp

section \<open>The length of a varint\<close>

text \<open>A decoder with bound \<open>lim\<close> reads at most \<open>lim div 7 + 1\<close> bytes.\<close>

lemma varint_decode_at_most_10:
  "varint_decode buf i = Inr (u, j) \<Longrightarrow> i < j \<and> j \<le> i + 10 \<and> j \<le> length buf"
  using varint_loop_pos [of 63 buf i 0 0 u j] varint_loop_count [of 63 buf i 0 0 u j]
  by (simp add: varint_decode_def)

lemma read_uvarint_at_most_10:
  "read_uvarint buf i = Inr (u, j) \<Longrightarrow> i < j \<and> j \<le> i + 10 \<and> j \<le> length buf"
  using varint_loop_pos [of 63 buf i 0 0 u j] varint_loop_count [of 63 buf i 0 0 u j]
  by (simp add: read_uvarint_def)

text \<open>
  C5. Every module's varint decoder is to fail with Overlong when the shift would
  exceed 63, so that a value takes at most 10 bytes. On ten continuation bytes followed
  by a final byte the decoders of Case-01 and Case-04 fail with Overlong, but the decoder
  of Case-02, whose test is \<open>shift > 70\<close>, returns \<open>2^70\<close> and has read 11 bytes.
\<close>

theorem varint_decode2_eleven_bytes:
  "varint_decode2 (replicate 10 0x80 @ [0x01]) 0 = Inr (2 ^ 70, 11)
   \<and> varint_decode (replicate 10 0x80 @ [0x01]) 0 = Inl Overlong
   \<and> read_uvarint (replicate 10 0x80 @ [0x01]) 0 = Inl Overlong"
  by code_simp

section \<open>The index check of the replay engines\<close>

text \<open>Case-01: \<open>main\<close> prints rows only for an index whose magic and row count match.\<close>

lemma main1_checks_index:
  assumes "main1 seek_row seek_days rows star_buf idx_bytes = Inr out"
  shows "\<exists>n price_scale base body_i anchor_every n_idx anchors.
           parse_star1_header star_buf = Inr (n, price_scale, base, body_i)
         \<and> load_index1 idx_bytes = Inr (anchor_every, n_idx, anchors)
         \<and> take 5 idx_bytes = SIDX1 \<and> int n_idx = n"
proof -
  from assms obtain n price_scale base body_i where
    p: "parse_star1_header star_buf = Inr (n, price_scale, base, body_i)"
    by (auto simp: main1_def split: if_splits sum.splits)
  from assms p obtain anchor_every n_idx anchors where
    l: "load_index1 idx_bytes = Inr (anchor_every, n_idx, anchors)"
    by (auto simp: main1_def split: if_splits sum.splits)
  have m: "take 5 idx_bytes = SIDX1" using l by (auto simp: load_index1_def split: if_splits)
  have "int n_idx = n" using assms p l by (auto simp: main1_def split: if_splits)
  then show ?thesis using p l m by blast
qed

lemma main1_index_mismatch:
  assumes "seek_row \<noteq> None \<or> seek_days \<noteq> None"
    "parse_star1_header star_buf = Inr (n, price_scale, base, body_i)"
    "load_index1 idx_bytes = Inr (anchor_every, n_idx, anchors)" "int n_idx \<noteq> n"
  shows "main1 seek_row seek_days rows star_buf idx_bytes = Inl IndexMismatch"
  using assms by (auto simp: main1_def)

text \<open>
  A STAR2A blob of one row (header \<open>n = 1\<close>, the base row all zero) and an index file
  that records \<open>n_rows = 2\<close> with one anchor at row 0.
\<close>

definition star_one_row :: "byte list" where
  "star_one_row = STAR2A @ [1, 0, 0, 0, 0, 0, 0, 0, 0]"

definition idx_two_rows :: "byte list" where
  "idx_two_rows = STARIDX2 @ [1] @ [0, 4, 0, 0] @ [2, 0, 0, 0, 0, 0, 0, 0] @ [1, 0, 0, 0]
     @ [0, 0, 0, 0, 0, 0, 0, 0] @ [15, 0, 0, 0, 0, 0, 0, 0] @ replicate 64 0"

text \<open>
  C7. Before decoding rows the replay engine is to check that the index's \<open>n_rows\<close>
  equals the \<open>n\<close> of the STAR header and to fail otherwise. Case-01 does
  (\<open>main1_checks_index\<close>, \<open>main1_index_mismatch\<close>). Case-02's \<open>replay_seek\<close> never reads
  the header's \<open>n\<close>: for the blob with \<open>n = 1\<close> and the index with \<open>n_rows = 2\<close> it
  returns a row.
\<close>

theorem replay_seek_ignores_row_count:
  "varint_decode2 star_one_row 6 = Inr (1, 7)
   \<and> load_index2 idx_two_rows = Inr (1024, 2, [(0, 15, mk_tick [0, 0, 0, 0, 0, 0, 0, 0])])
   \<and> replay_seek star_one_row idx_two_rows (Some 0) 1 = Inr [mk_tick [0, 0, 0, 0, 0, 0, 0, 0]]"
  by code_simp

section \<open>Termination of the encoders\<close>

lemma varint_encode_returns:
  "0 \<le> u \<Longrightarrow> \<exists>bs. varint_encode u = Some bs \<and> bs \<noteq> []"
  by (simp add: varint_encode_nonneg venc_nonempty)

lemma varint_encode_zigzag_returns: "\<exists>bs. varint_encode (zigzag_encode x) = Some bs"
  by (simp add: varint_encode_nonneg zigzag_encode_nonneg)

lemma encode_star_returns: "0 \<le> ps \<Longrightarrow> \<exists>buf. encode_star bars ps = Some buf"
  by (cases bars) (simp_all add: encode_star_Nil encode_star_Cons)

text \<open>
  C10. Every \<open>varint_encode\<close> call of the Case-01 and Case-02 encoders is to return.
  \<open>varint_encode\<close> returns on a non-negative argument (\<open>varint_encode_returns\<close>), never
  on a negative one (\<open>varint_encode_neg\<close>), and a zig-zag value is never negative
  (\<open>zigzag_encode_nonneg\<close>); but \<open>encode_star\<close> of Case-01 also calls
  \<open>varint_encode(price_scale)\<close>, and \<open>price_scale\<close> is an unchecked command-line
  integer: with \<open>price_scale = -1\<close> and one bar the encoder does not return.
\<close>

theorem encode_star_negative_price_scale:
  "encode_star [\<lparr>d_days = 0, bar_o = 0, bar_h = 0, bar_l = 0, bar_c = 0, bar_v = 0\<rparr>] (- 1) = None
   \<and> varint_encode (- 1) = None"
  by (simp add: encode_star_Cons varint_encode_neg)

end
